theory Spec2Isabelle
  imports Complex_Main "HOL-Library.AList"
begin

section \<open>Strings and numbers of the host language\<close>

text \<open>
  A JavaScript string is a sequence of UTF-16 code units. The model uses HOL strings, whose
  characters are the code units below 256 (Latin-1); on these the operations below are the
  host's own. A JavaScript number is modelled as a real: rounding to binary64, NaN, the
  infinities and the sign of zero are not part of the model unless a result type says so.
  The integers \<open>parseInt\<close> reads are rounded to binary64, with the infinities.
\<close>

definition toLowerChar :: "char \<Rightarrow> char" where
  \<comment> \<open>\<open>String.prototype.toLowerCase\<close> on one code unit below 256: A-Z and the Latin-1
      capitals (all of C0-DE but the multiplication sign D7) move up by 32.\<close>
  "toLowerChar c =
     (let n = (of_char c :: nat)
      in if (65 \<le> n \<and> n \<le> 90) \<or> (192 \<le> n \<and> n \<le> 222 \<and> n \<noteq> 215)
         then char_of (n + 32) else c)"

definition toLowerCase :: "string \<Rightarrow> string" where
  "toLowerCase s = map toLowerChar s"

definition isLowerAlnum :: "char \<Rightarrow> bool" where
  \<comment> \<open>the character class \<open>[a-z0-9]\<close>\<close>
  "isLowerAlnum c =
     (let n = (of_char c :: nat) in (97 \<le> n \<and> n \<le> 122) \<or> (48 \<le> n \<and> n \<le> 57))"

definition normalize_str :: "string \<Rightarrow> string" where
  \<comment> \<open>\<open>s.toLowerCase().replace(/[^a-z0-9]/g, '')\<close>\<close>
  "normalize_str s = filter isLowerAlnum (toLowerCase s)"

fun startsWith :: "string \<Rightarrow> string \<Rightarrow> bool" where
  "startsWith s [] = True"
| "startsWith [] (c # t) = False"
| "startsWith (a # s) (c # t) = (a = c \<and> startsWith s t)"

fun includes_str :: "string \<Rightarrow> string \<Rightarrow> bool" where
  \<comment> \<open>\<open>s.includes(t)\<close>: \<open>t\<close> occurs in \<open>s\<close> as a contiguous run\<close>
  "includes_str [] t = (t = [])"
| "includes_str (a # s) t = (startsWith (a # s) t \<or> includes_str s t)"

section \<open>Similarity scorer (\<open>calculateSimilarity\<close>)\<close>

text \<open>
  The edit-distance matrix is built as the source builds it: \<open>s2.length + 1\<close> rows of
  \<open>s1.length + 1\<close> cells, filled with \<open>null\<close> (which the host's arithmetic reads as 0, so
  the cells are naturals starting at 0), then row 0 and column 0, then the cells row by row.
\<close>

definition setCell :: "nat list list \<Rightarrow> nat \<Rightarrow> nat \<Rightarrow> nat \<Rightarrow> nat list list" where
  \<comment> \<open>\<open>matrix[j][i] = v\<close>\<close>
  "setCell matrix j i v = matrix[j := (matrix ! j)[i := v]]"

definition initMatrix :: "string \<Rightarrow> string \<Rightarrow> nat list list" where
  "initMatrix s1 s2 =
     (let m0 = replicate (length s2 + 1) (replicate (length s1 + 1) 0);
          m1 = fold (\<lambda>i m. setCell m 0 i i) [0..<length s1 + 1] m0
      in fold (\<lambda>j m. setCell m j 0 j) [0..<length s2 + 1] m1)"

definition cellStep :: "string \<Rightarrow> string \<Rightarrow> nat \<Rightarrow> nat \<Rightarrow> nat list list \<Rightarrow> nat list list" where
  "cellStep s1 s2 j i matrix =
     (let indicator = (if s1 ! (i - 1) = s2 ! (j - 1) then 0 else 1)
      in setCell matrix j i
           (min (min (matrix ! j ! (i - 1) + 1) (matrix ! (j - 1) ! i + 1))
                (matrix ! (j - 1) ! (i - 1) + indicator)))"

definition fillMatrix :: "string \<Rightarrow> string \<Rightarrow> nat list list" where
  "fillMatrix s1 s2 =
     fold (\<lambda>j m. fold (cellStep s1 s2 j) [1..<length s1 + 1] m) [1..<length s2 + 1]
       (initMatrix s1 s2)"

definition calculateSimilarity :: "string \<Rightarrow> string \<Rightarrow> real" where
  "calculateSimilarity str1 str2 =
     (let s1 = normalize_str str1; s2 = normalize_str str2
      in if s1 = s2 then 1
         else if includes_str s1 s2 \<or> includes_str s2 s1 then 8 / 10
         else let distance = fillMatrix s1 s2 ! length s2 ! length s1
              in 1 - real distance / real (max (length s1) (length s2)))"

text \<open>
  The edit distance as the textbooks define it, by recursion on the two strings; the matrix
  above is compared with it.
\<close>

fun levenshtein :: "string \<Rightarrow> string \<Rightarrow> nat" where
  "levenshtein [] t = length t"
| "levenshtein (a # s) [] = Suc (length s)"
| "levenshtein (a # s) (b # t) =
     min (min (levenshtein s (b # t) + 1) (levenshtein (a # s) t + 1))
         (levenshtein s t + (if a = b then 0 else 1))"


section \<open>Auxiliary notions for the proofs about the matrix\<close>

definition ind :: "char \<Rightarrow> char \<Rightarrow> nat" where
  "ind a b = (if a = b then 0 else 1)"

definition shape :: "nat \<Rightarrow> nat \<Rightarrow> nat list list \<Rightarrow> bool" where
  "shape n1 n2 m = (length m = Suc n2 \<and> (\<forall>j\<le>n2. length (m ! j) = Suc n1))"

definition prefixDist :: "string \<Rightarrow> string \<Rightarrow> nat \<Rightarrow> nat \<Rightarrow> nat" where
  "prefixDist s1 s2 i j = levenshtein (take i s1) (take j s2)"

definition rowsDone :: "string \<Rightarrow> string \<Rightarrow> nat \<Rightarrow> nat list list \<Rightarrow> bool" where
  "rowsDone s1 s2 J m =
     (shape (length s1) (length s2) m \<and> (\<forall>j\<le>length s2. m ! j ! 0 = j) \<and>
      (\<forall>j<J. \<forall>i\<le>length s1. m ! j ! i = prefixDist s1 s2 i j))"

definition cellsDone :: "string \<Rightarrow> string \<Rightarrow> nat \<Rightarrow> nat \<Rightarrow> nat list list \<Rightarrow> bool" where
  "cellsDone s1 s2 j I m =
     (rowsDone s1 s2 j m \<and> (\<forall>i<I. m ! j ! i = prefixDist s1 s2 i j))"


section \<open>Header mapper (\<open>mapHeaders\<close>)\<close>

datatype DataType = clients | workers | tasks

definition HEADER_MAPPINGS :: "DataType \<Rightarrow> (string \<times> string list) list" where
  \<comment> \<open>the table of the source; the order of the fields is the order of enumeration\<close>
  "HEADER_MAPPINGS dataType = (case dataType of
     clients \<Rightarrow>
      [(''ClientID'', [''client_id'', ''clientid'', ''id'', ''client'', ''client_identifier'']),
       (''ClientName'', [''client_name'', ''clientname'', ''name'', ''company'', ''organization'']),
       (''PriorityLevel'', [''priority_level'', ''priority'', ''importance'', ''urgency'']),
       (''RequestedTaskIDs'',
          [''requested_task_ids'', ''requested_tasks'', ''tasks'', ''task_ids'', ''taskids'']),
       (''GroupTag'', [''group_tag'', ''group'', ''category'', ''segment'', ''type'']),
       (''AttributesJSON'',
          [''attributes_json'', ''attributes'', ''metadata'', ''properties'', ''extras''])]
   | workers \<Rightarrow>
      [(''WorkerID'', [''worker_id'', ''workerid'', ''id'', ''employee_id'', ''worker'']),
       (''WorkerName'', [''worker_name'', ''workername'', ''name'', ''employee_name'', ''full_name'']),
       (''Skills'', [''skills'', ''skill_set'', ''competencies'', ''abilities'', ''expertise'']),
       (''AvailableSlots'',
          [''available_slots'', ''availability'', ''slots'', ''capacity'', ''schedule'']),
       (''MaxLoadPerPhase'', [''max_load_per_phase'', ''max_load'', ''capacity'', ''workload_limit'']),
       (''WorkerGroup'', [''worker_group'', ''group'', ''team'', ''department'', ''division'']),
       (''QualificationLevel'',
          [''qualification_level'', ''level'', ''experience'', ''seniority'', ''grade''])]
   | tasks \<Rightarrow>
      [(''TaskID'', [''task_id'', ''taskid'', ''id'', ''task'', ''task_identifier'']),
       (''TaskName'', [''task_name'', ''taskname'', ''name'', ''title'', ''description'']),
       (''Category'', [''category'', ''type'', ''classification'', ''domain'', ''area'']),
       (''Duration'', [''duration'', ''time'', ''hours'', ''effort'', ''estimated_duration'']),
       (''RequiredSkills'',
          [''required_skills'', ''skills'', ''skill_requirements'', ''competencies'']),
       (''PreferredPhases'', [''preferred_phases'', ''phases'', ''timeline'', ''schedule'', ''periods'']),
       (''MaxConcurrent'', [''max_concurrent'', ''concurrency'', ''parallel_limit'', ''simultaneous''])])"

text \<open>
  The three nested \<open>forEach\<close> loops, innermost first. The pair \<open>(bestMatch, bestScore)\<close> is the
  state of the two inner loops; \<open>(result, usedHeaders)\<close> is the state of the outer one.
  \<open>result\<close> is an object with string keys, kept as an association list in insertion order.
\<close>

definition altStep :: "string \<Rightarrow> string \<Rightarrow> string \<times> real \<Rightarrow> string \<times> real" where
  "altStep header alt best = (case best of (bestMatch, bestScore) \<Rightarrow>
     (let score = calculateSimilarity header alt
      in if score > bestScore \<and> score > 6 / 10 then (header, score)
         else (bestMatch, bestScore)))"

definition headerStep ::
    "string set \<Rightarrow> string list \<Rightarrow> string \<Rightarrow> string \<times> real \<Rightarrow> string \<times> real" where
  "headerStep usedHeaders alternatives header best =
     (if header \<in> usedHeaders then best
      else if normalize_str header \<in> set alternatives then (header, 1)
      else fold (altStep header) alternatives best)"

definition fieldStep ::
    "string list \<Rightarrow> string \<times> string list \<Rightarrow> (string \<times> string) list \<times> string set \<Rightarrow>
     (string \<times> string) list \<times> string set" where
  "fieldStep headers entry st = (case entry of (standardField, alternatives) \<Rightarrow>
     (case st of (result, usedHeaders) \<Rightarrow>
       (case fold (headerStep usedHeaders alternatives) headers ('''', 0) of
          (bestMatch, bestScore) \<Rightarrow>
            if bestMatch \<noteq> '''' \<and> bestScore > 6 / 10
            then (AList.update standardField bestMatch result, insert bestMatch usedHeaders)
            else (result, usedHeaders))))"

definition mapFields ::
    "string list \<Rightarrow> (string \<times> string list) list \<Rightarrow> (string \<times> string) list \<times> string set" where
  "mapFields headers mappings = fold (fieldStep headers) mappings ([], {})"

definition mapHeaders :: "string list \<Rightarrow> DataType \<Rightarrow> (string \<times> string) list" where
  "mapHeaders headers dataType = fst (mapFields headers (HEADER_MAPPINGS dataType))"

definition claimedBefore :: "string list \<Rightarrow> DataType \<Rightarrow> string \<Rightarrow> string set" where
  \<comment> \<open>\<open>usedHeaders\<close> at the moment the outer loop reaches the given field\<close>
  "claimedBefore headers dataType field =
     snd (mapFields headers (takeWhile (\<lambda>entry. fst entry \<noteq> field) (HEADER_MAPPINGS dataType)))"

text \<open>
  What one pass of the outer loop decides for a field, given the headers already claimed; and
  the invariant of the outer loop's state.
\<close>

definition fieldChoice :: "string list \<Rightarrow> string set \<Rightarrow> string list \<Rightarrow> string option" where
  "fieldChoice headers usedHeaders alternatives =
     (case fold (headerStep usedHeaders alternatives) headers ('''', 0) of
        (bestMatch, bestScore) \<Rightarrow>
          if bestMatch \<noteq> '''' \<and> bestScore > 6 / 10 then Some bestMatch else None)"

definition mapState_ok :: "(string \<times> string) list \<times> string set \<Rightarrow> bool" where
  "mapState_ok st =
     (snd ` set (fst st) \<subseteq> snd st \<and> distinct (map snd (fst st)) \<and> distinct (map fst (fst st)))"


section \<open>Values and string operations of the host language\<close>

text \<open>
  A value as the coercer returns it. \<open>JNull\<close> is \<open>null\<close>.
  \<open>JText\<close> is a string produced by \<open>JSON.parse\<close>, kept as its UTF-16 code units because a
  \<open>\u\<close> escape can denote a code unit above 255; \<open>JText (map of_char s)\<close> and \<open>JStr s\<close>
  stand for the same string. \<open>JInf True\<close> is \<open>Infinity\<close>, \<open>JInf False\<close> is \<open>-Infinity\<close>.
  An object is the list of its members in source order.
\<close>

datatype jsval =
    JNull
  | JBool bool
  | JNum real
  | JInf bool
  | JStr string
  | JText "nat list"
  | JArr "jsval list"
  | JObj "(nat list \<times> jsval) list"

definition isWhiteSpace :: "char \<Rightarrow> bool" where
  \<comment> \<open>white space and line terminators below 256: TAB, LF, VT, FF, CR, SP, NBSP\<close>
  "isWhiteSpace c = ((of_char c :: nat) \<in> {9, 10, 11, 12, 13, 32, 160})"

definition trimStart :: "string \<Rightarrow> string" where
  "trimStart s = dropWhile isWhiteSpace s"

definition trim :: "string \<Rightarrow> string" where
  "trim s = rev (dropWhile isWhiteSpace (rev (dropWhile isWhiteSpace s)))"

definition endsWith :: "string \<Rightarrow> string \<Rightarrow> bool" where
  "endsWith s t = startsWith (rev s) (rev t)"

definition slice_1_m1 :: "string \<Rightarrow> string" where
  \<comment> \<open>\<open>s.slice(1, -1)\<close>\<close>
  "slice_1_m1 s = butlast (tl s)"

fun splitAcc :: "char \<Rightarrow> string \<Rightarrow> string \<Rightarrow> string list" where
  "splitAcc sep acc [] = [rev acc]"
| "splitAcc sep acc (c # cs) =
     (if c = sep then rev acc # splitAcc sep [] cs else splitAcc sep (c # acc) cs)"

definition split_comma :: "string \<Rightarrow> string list" where
  \<comment> \<open>\<open>s.split(',')\<close>; the empty string gives one empty piece\<close>
  "split_comma s = splitAcc CHR '','' [] s"

fun join :: "string \<Rightarrow> string list \<Rightarrow> string" where
  \<comment> \<open>\<open>pieces.join(sep)\<close>\<close>
  "join sep [] = []"
| "join sep [s] = s"
| "join sep (s # t # ts) = s @ sep @ join sep (t # ts)"

definition isDigit :: "char \<Rightarrow> bool" where
  "isDigit c = (48 \<le> (of_char c :: nat) \<and> (of_char c :: nat) \<le> 57)"

definition hexValue :: "char \<Rightarrow> nat option" where
  "hexValue c =
     (let n = (of_char c :: nat)
      in if 48 \<le> n \<and> n \<le> 57 then Some (n - 48)
         else if 97 \<le> n \<and> n \<le> 102 then Some (n - 87)
         else if 65 \<le> n \<and> n \<le> 70 then Some (n - 55)
         else None)"

definition digitsValue :: "int \<Rightarrow> nat list \<Rightarrow> int" where
  \<comment> \<open>the integer a digit sequence denotes in the given radix\<close>
  "digitsValue radix ds = foldl (\<lambda>acc d. acc * radix + int d) 0 ds"

definition decimalValue :: "string \<Rightarrow> int" where
  "decimalValue ds = digitsValue 10 (map (\<lambda>c. (of_char c :: nat) - 48) ds)"

text \<open>
  The Number value of an integer, which \<open>parseInt\<close> returns: the nearest binary64 number, a
  tie going to the even significand. \<open>bitLength n\<close> is the number of binary digits of \<open>n\<close>; an
  integer of more than 53 digits keeps its leading 53, rounded. \<open>roundToBinary64\<close> returns
  \<open>None\<close> when the rounded magnitude reaches \<open>2 ^ 1024\<close>, beyond the largest finite number:
  the Number value is then an infinity. The sign of a zero is not modelled: \<open>-0\<close> is \<open>JNum 0\<close>.
  Beyond 20 significant decimal digits the standard lets an implementation approximate the
  integer before it is rounded; the model rounds the integer as written.
\<close>

function bitLength :: "int \<Rightarrow> nat" where
  "bitLength n = (if n \<le> 0 then 0 else Suc (bitLength (n div 2)))"
  by pat_completeness auto

termination bitLength
  by (relation "measure nat") auto

declare bitLength.simps [simp del]

definition roundToBinary64 :: "int \<Rightarrow> int option" where
  \<comment> \<open>on a magnitude \<open>n\<close>, with \<open>0 \<le> n\<close>\<close>
  "roundToBinary64 n =
     (let e = bitLength n - 53;
          q = n div 2 ^ e;
          r = n mod 2 ^ e;
          q' = (if 2 ^ e < 2 * r \<or> (2 * r = 2 ^ e \<and> odd q) then q + 1 else q)
      in if q' * 2 ^ e < 2 ^ 1024 then Some (q' * 2 ^ e) else None)"

definition toNumber :: "int \<Rightarrow> jsval" where
  "toNumber n =
     (case roundToBinary64 \<bar>n\<bar> of
        None \<Rightarrow> JInf (0 \<le> n)
      | Some m \<Rightarrow> JNum (real_of_int (if n < 0 then - m else m)))"

definition mathInt :: "string \<Rightarrow> int option" where
  \<comment> \<open>the integer \<open>parseInt(s)\<close>, with no radix, reads off the string; \<open>None\<close> when there is no
      digit. Leading white space is skipped, a sign is read, \<open>0x\<close> or \<open>0X\<close> selects radix 16,
      and the longest run of digits is the value.\<close>
  "mathInt s =
     (let s1 = trimStart s;
          neg = startsWith s1 ''-'';
          s2 = (if startsWith s1 ''-'' \<or> startsWith s1 ''+'' then tl s1 else s1);
          hex = (startsWith s2 ''0x'' \<or> startsWith s2 ''0X'');
          s3 = (if hex then drop 2 s2 else s2);
          ds = (if hex then takeWhile (\<lambda>c. hexValue c \<noteq> None) s3 else takeWhile isDigit s3)
      in if ds = [] then None
         else let n = digitsValue (if hex then 16 else 10) (List.map_filter hexValue ds)
              in Some (if neg then - n else n))"

definition parseInt :: "string \<Rightarrow> jsval option" where
  \<comment> \<open>\<open>parseInt(s)\<close>: the Number value of the integer read; \<open>None\<close> is \<open>NaN\<close>\<close>
  "parseInt s = map_option toNumber (mathInt s)"

definition parseExponent :: "string \<Rightarrow> int" where
  \<comment> \<open>the exponent part at the head of the string, 0 if there is none\<close>
  "parseExponent s =
     (if startsWith s ''e'' \<or> startsWith s ''E'' then
        (let s1 = tl s;
             neg = startsWith s1 ''-'';
             s2 = (if startsWith s1 ''-'' \<or> startsWith s1 ''+'' then tl s1 else s1);
             ds = takeWhile isDigit s2
         in if ds = [] then 0 else if neg then - decimalValue ds else decimalValue ds)
      else 0)"

definition parseFloat :: "string \<Rightarrow> jsval option" where
  \<comment> \<open>\<open>parseFloat(s)\<close>; \<open>None\<close> is \<open>NaN\<close>. The longest prefix that is a decimal literal (or
      \<open>Infinity\<close>) after leading white space and a sign.\<close>
  "parseFloat s =
     (let s1 = trimStart s;
          neg = startsWith s1 ''-'';
          s2 = (if startsWith s1 ''-'' \<or> startsWith s1 ''+'' then tl s1 else s1)
      in if startsWith s2 ''Infinity'' then Some (JInf (\<not> neg))
         else
           let ip = takeWhile isDigit s2;
               r1 = dropWhile isDigit s2;
               fp = (if startsWith r1 ''.'' then takeWhile isDigit (tl r1) else []);
               r2 = (if startsWith r1 ''.'' then dropWhile isDigit (tl r1) else r1)
           in if ip = [] \<and> fp = [] then None
              else
                let m = real_of_int (decimalValue ip) + real_of_int (decimalValue fp) / 10 ^ length fp;
                    v = m * 10 powi parseExponent r2
                in Some (JNum (if neg then - v else v)))"

section \<open>\<open>JSON.parse\<close>\<close>

text \<open>
  The host's parser of JSON texts, written from the grammar of the standard: white space is
  TAB, LF, CR and SP; a value is \<open>null\<close>, \<open>true\<close>, \<open>false\<close>, a number, a string, an array or an
  object; nothing but white space may follow the value. \<open>None\<close> is the \<open>SyntaxError\<close> the
  host throws. Each parser returns the value with the rest of the input. The tests
  \<open>length rest < length cs\<close> only make the recursion visibly terminating: a parser that
  succeeds has consumed input, so they never fail (\<open>parse_shorter\<close>,
  \<open>parseElements_unguarded\<close> and \<open>parseMembers_unguarded\<close> below).
\<close>

definition isJsonSpace :: "char \<Rightarrow> bool" where
  "isJsonSpace c = ((of_char c :: nat) \<in> {9, 10, 13, 32})"

definition skipWs :: "string \<Rightarrow> string" where
  "skipWs s = dropWhile isJsonSpace s"

definition hex4 :: "string \<Rightarrow> nat option" where
  \<comment> \<open>the code unit four hexadecimal digits denote\<close>
  "hex4 s =
     (if length s = 4 \<and> list_all (\<lambda>c. hexValue c \<noteq> None) s
      then Some (nat (digitsValue 16 (List.map_filter hexValue s))) else None)"

definition escapeChar :: "char \<Rightarrow> nat option" where
  \<comment> \<open>the code unit of a one-character escape\<close>
  "escapeChar c =
     (if c = CHR ''\"'' then Some 34 else if c = CHR 0x5C then Some 92
      else if c = CHR ''/'' then Some 47 else if c = CHR ''b'' then Some 8
      else if c = CHR ''f'' then Some 12 else if c = CHR ''n'' then Some 10
      else if c = CHR ''r'' then Some 13 else if c = CHR ''t'' then Some 9 else None)"

fun parseChars :: "string \<Rightarrow> (nat list \<times> string) option" where
  \<comment> \<open>the characters of a string literal after its opening quote, up to the closing quote\<close>
  "parseChars [] = None"
| "parseChars (c # cs) =
     (if c = CHR ''\"'' then Some ([], cs)
      else if c = CHR 0x5C then
        (case cs of
           [] \<Rightarrow> None
         | e # cs' \<Rightarrow>
             if e = CHR ''u'' then
               (case hex4 (take 4 cs') of
                  None \<Rightarrow> None
                | Some n \<Rightarrow> map_option (apfst ((#) n)) (parseChars (drop 4 cs')))
             else
               (case escapeChar e of
                  None \<Rightarrow> None
                | Some n \<Rightarrow> map_option (apfst ((#) n)) (parseChars cs')))
      else if (of_char c :: nat) < 32 then None
      else map_option (apfst ((#) (of_char c))) (parseChars cs))"

definition parseNumber :: "string \<Rightarrow> (real \<times> string) option" where
  \<comment> \<open>\<open>-? (0 | [1-9][0-9]*) (. [0-9]+)? ([eE] [+-]? [0-9]+)?\<close>\<close>
  "parseNumber s =
     (let neg = startsWith s ''-'';
          s1 = (if neg then tl s else s);
          ip = (if startsWith s1 ''0'' then ''0'' else takeWhile isDigit s1);
          r1 = drop (length ip) s1
      in if ip = [] then None
         else
           let hasFrac = startsWith r1 ''.'';
               fp = (if hasFrac then takeWhile isDigit (tl r1) else []);
               r2 = (if hasFrac then dropWhile isDigit (tl r1) else r1)
           in if hasFrac \<and> fp = [] then None
              else
                let hasExp = (startsWith r2 ''e'' \<or> startsWith r2 ''E'');
                    r3 = (if hasExp then tl r2 else r2);
                    eneg = startsWith r3 ''-'';
                    r4 = (if hasExp \<and> (startsWith r3 ''-'' \<or> startsWith r3 ''+'') then tl r3 else r3);
                    ed = (if hasExp then takeWhile isDigit r4 else []);
                    r5 = (if hasExp then dropWhile isDigit r4 else r4)
                in if hasExp \<and> ed = [] then None
                   else
                     let m = real_of_int (decimalValue ip) + real_of_int (decimalValue fp) / 10 ^ length fp;
                         ex = (if eneg then - decimalValue ed else decimalValue ed);
                         v = m * 10 powi ex
                     in Some (if neg then - v else v, r5))"

function (sequential) parseValue :: "string \<Rightarrow> (jsval \<times> string) option"
  and parseElements :: "string \<Rightarrow> (jsval list \<times> string) option"
  and parseMembers :: "string \<Rightarrow> ((nat list \<times> jsval) list \<times> string) option"
where
  "parseValue cs =
     (case skipWs cs of
        [] \<Rightarrow> None
      | c # cs' \<Rightarrow>
          if c = CHR ''['' then
            (if startsWith (skipWs cs') '']'' then Some (JArr [], tl (skipWs cs'))
             else map_option (apfst JArr) (parseElements cs'))
          else if c = CHR ''{'' then
            (if startsWith (skipWs cs') ''}'' then Some (JObj [], tl (skipWs cs'))
             else map_option (apfst JObj) (parseMembers cs'))
          else if c = CHR ''\"'' then map_option (apfst JText) (parseChars cs')
          else if startsWith (c # cs') ''null'' then Some (JNull, drop 4 (c # cs'))
          else if startsWith (c # cs') ''true'' then Some (JBool True, drop 4 (c # cs'))
          else if startsWith (c # cs') ''false'' then Some (JBool False, drop 5 (c # cs'))
          else map_option (apfst JNum) (parseNumber (c # cs')))"
| "parseElements cs =
     \<comment> \<open>the elements of a non-empty array up to its closing bracket\<close>
     (case parseValue cs of
        None \<Rightarrow> None
      | Some (v, rest) \<Rightarrow>
          if length rest < length cs then
            (case skipWs rest of
               [] \<Rightarrow> None
             | c # cs' \<Rightarrow>
                 if c = CHR '','' then map_option (apfst ((#) v)) (parseElements cs')
                 else if c = CHR '']'' then Some ([v], cs')
                 else None)
          else None)"
| "parseMembers cs =
     \<comment> \<open>the members of a non-empty object up to its closing brace\<close>
     (case skipWs cs of
        [] \<Rightarrow> None
      | q # cs1 \<Rightarrow>
          if q \<noteq> CHR ''\"'' then None
          else
            (case parseChars cs1 of
               None \<Rightarrow> None
             | Some (k, cs2) \<Rightarrow>
                 (case skipWs cs2 of
                    [] \<Rightarrow> None
                  | colon # cs3 \<Rightarrow>
                      if colon \<noteq> CHR '':'' \<or> \<not> length cs3 < length cs then None
                      else
                        (case parseValue cs3 of
                           None \<Rightarrow> None
                         | Some (v, rest) \<Rightarrow>
                             if length rest < length cs3 then
                               (case skipWs rest of
                                  [] \<Rightarrow> None
                                | c # cs' \<Rightarrow>
                                    if c = CHR '','' then
                                      map_option (apfst ((#) (k, v))) (parseMembers cs')
                                    else if c = CHR ''}'' then Some ([(k, v)], cs')
                                    else None)
                             else None))))"
  by pat_completeness auto
termination
proof (relation "measure (\<lambda>x. case x of
                    Inl cs \<Rightarrow> 2 * length cs
                  | Inr (Inl cs) \<Rightarrow> 2 * length cs + 1
                  | Inr (Inr cs) \<Rightarrow> 2 * length cs + 1)", goal_cases)
  case 1
  show ?case by simp
next
  case (2 cs c cs')
  have "length (skipWs cs) \<le> length cs"
    unfolding skipWs_def by (rule length_dropWhile_le)
  with 2 show ?case by simp
next
  case (3 cs c cs')
  have "length (skipWs cs) \<le> length cs"
    unfolding skipWs_def by (rule length_dropWhile_le)
  with 3 show ?case by simp
next
  case (4 cs)
  show ?case by simp
next
  case (5 cs x2 v rest c cs')
  have "length (skipWs rest) \<le> length rest"
    unfolding skipWs_def by (rule length_dropWhile_le)
  with 5 show ?case by simp
next
  case (6 cs q cs1 x2 k cs2 colon cs3)
  then show ?case by simp
next
  case (7 cs q cs1 x2 k cs2 colon cs3 x2a v rest c cs')
  have "length (skipWs rest) \<le> length rest"
    unfolding skipWs_def by (rule length_dropWhile_le)
  with 7 show ?case by simp
qed

declare parseValue.simps [simp del] parseElements.simps [simp del] parseMembers.simps [simp del]

definition JSON_parse :: "string \<Rightarrow> jsval option" where
  "JSON_parse s =
     (case parseValue s of
        None \<Rightarrow> None
      | Some (v, rest) \<Rightarrow> if skipWs rest = [] then Some v else None)"

section \<open>Value coercer (\<open>convertValue\<close>)\<close>

text \<open>
  The raw cell is a string or absent (\<open>None\<close>: \<open>null\<close> or \<open>undefined\<close>); cells of other
  types, which a spreadsheet can deliver, are outside the model.
\<close>

definition convertValue :: "string option \<Rightarrow> string \<Rightarrow> jsval" where
  "convertValue val fieldName =
     (case val of
        None \<Rightarrow> JNull
      | Some s \<Rightarrow>
          if s = '''' then JNull
          else
            let stringValue = trim s
            in if includes_str fieldName ''Skills'' \<or> includes_str fieldName ''TaskIDs'' \<or>
                  includes_str fieldName ''Phases'' then
                 (if startsWith stringValue ''['' \<and> endsWith stringValue '']'' then
                    (case JSON_parse stringValue of
                       Some v \<Rightarrow> v
                     | None \<Rightarrow> JArr (map (\<lambda>p. JStr (trim p)) (split_comma (slice_1_m1 stringValue))))
                  else JArr (map JStr (filter (\<lambda>p. p \<noteq> '''') (map trim (split_comma stringValue)))))
               else if includes_str fieldName ''JSON'' \<or> includes_str fieldName ''Attributes'' then
                 (case JSON_parse stringValue of
                    Some v \<Rightarrow> v
                  | None \<Rightarrow> JStr stringValue)
               else if includes_str fieldName ''Level'' \<or> includes_str fieldName ''Duration'' \<or>
                       includes_str fieldName ''Load'' \<or> includes_str fieldName ''Concurrent'' then
                 (case parseFloat stringValue of
                    None \<Rightarrow> JNull
                  | Some num \<Rightarrow> num)
               else if includes_str fieldName ''Slots'' then
                 (if startsWith stringValue ''['' \<and> endsWith stringValue '']'' then
                    (case JSON_parse stringValue of
                       Some v \<Rightarrow> v
                     | None \<Rightarrow>
                         JArr (List.map_filter (\<lambda>p. parseInt (trim p))
                                 (split_comma (slice_1_m1 stringValue))))
                  else JArr (List.map_filter (\<lambda>p. parseInt (trim p)) (split_comma stringValue)))
               else JStr stringValue)"

section \<open>Entities and diagnostics\<close>

text \<open>
  The entities have the fields and the types the interfaces of the source declare. A field
  that is \<open>null\<close> or \<open>undefined\<close> is \<open>None\<close>. The validator's defensive tests for values of
  another type than the declared one are decided by the types here: \<open>Array.isArray\<close> holds of
  every list, so the diagnostics \<open>... must be an array\<close> cannot arise, and \<open>typeof\<close> of an
  element is the declared one, so an element of a string list is invalid only when empty.
  The one exception is \<open>AttributesJSON\<close>, which the coercer leaves as a string when it is
  not valid JSON, so the field is an object or a string.
\<close>

datatype attributes = AttributesObject "(nat list \<times> jsval) list" | AttributesString string

record Client =
  ClientID :: "string option"
  ClientName :: "string option"
  PriorityLevel :: "real option"
  RequestedTaskIDs :: "string list option"
  GroupTag :: "string option"
  AttributesJSON :: "attributes option"

record Worker =
  WorkerID :: "string option"
  WorkerName :: "string option"
  Skills :: "string list option"
  AvailableSlots :: "real list option"
  MaxLoadPerPhase :: "real option"
  WorkerGroup :: "string option"
  QualificationLevel :: "real option"

record Task =
  TaskID :: "string option"
  TaskName :: "string option"
  Category :: "string option"
  Duration :: "real option"
  RequiredSkills :: "string list option"
  PreferredPhases :: "real list option"
  MaxConcurrent :: "real option"

record AllData =
  all_clients :: "Client list"
  all_workers :: "Worker list"
  all_tasks :: "Task list"

text \<open>
  The value a diagnostic carries: what the validator puts there (a field, a list of offending
  entries, a text), and what \<open>generateAutoFix\<close> returns (\<open>VVals\<close>: the numbers \<open>parseInt\<close>
  has read).
\<close>

datatype errval =
  VNull | VNum real | VStr string | VStrs "string list" | VNums "real list" | VVals "jsval list"

datatype vtype = error | warning

datatype vseverity = high | medium | low

text \<open>
  A diagnostic. Its generated identifier (\<open>generateId\<close>, of a module outside the sources at
  hand) is left out: nothing reads it.
\<close>

record ValidationError =
  type :: vtype
  severity :: vseverity
  entity :: DataType
  row :: nat
  column :: string
  message :: string
  val :: errval
  suggestion :: "string option"
  autoFixAvailable :: bool

record Summary =
  totalErrors :: nat
  totalWarnings :: nat
  validRows :: int
  totalRows :: nat

record ValidationResult =
  isValid :: bool
  errors :: "ValidationError list"
  warnings :: "ValidationError list"
  confidence :: int
  summary :: Summary

text \<open>The two accumulators of the validator object: \<open>this.errors\<close> and \<open>this.warnings\<close>.\<close>

type_synonym vstate = "ValidationError list \<times> ValidationError list"

definition truthy :: "string option \<Rightarrow> bool" where
  \<comment> \<open>a string field in a condition: neither absent nor empty\<close>
  "truthy x = (case x of None \<Rightarrow> False | Some s \<Rightarrow> s \<noteq> '''')"

definition strVal :: "string option \<Rightarrow> errval" where
  "strVal x = (case x of None \<Rightarrow> VNull | Some s \<Rightarrow> VStr s)"

definition strsVal :: "string list option \<Rightarrow> errval" where
  "strsVal x = (case x of None \<Rightarrow> VNull | Some xs \<Rightarrow> VStrs xs)"


definition addError ::
    "DataType \<Rightarrow> nat \<Rightarrow> string \<Rightarrow> string \<Rightarrow> errval \<Rightarrow> string option \<Rightarrow> vstate \<Rightarrow> vstate" where
  "addError ent r col msg v sugg st = (case st of (errs, warns) \<Rightarrow>
     (errs @ [\<lparr>type = error, severity = high, entity = ent, row = r, column = col,
               message = msg, val = v, suggestion = sugg,
               autoFixAvailable = truthy sugg\<rparr>], warns))"

definition addWarning ::
    "DataType \<Rightarrow> nat \<Rightarrow> string \<Rightarrow> string \<Rightarrow> errval \<Rightarrow> string option \<Rightarrow> vstate \<Rightarrow> vstate" where
  "addWarning ent r col msg v sugg st = (case st of (errs, warns) \<Rightarrow>
     (errs, warns @ [\<lparr>type = warning, severity = medium, entity = ent, row = r, column = col,
                      message = msg, val = v, suggestion = sugg,
                      autoFixAvailable = truthy sugg\<rparr>]))"

definition whenTrue :: "bool \<Rightarrow> (vstate \<Rightarrow> vstate) \<Rightarrow> vstate \<Rightarrow> vstate" where
  \<comment> \<open>\<open>if (b) { act }\<close> as a step on the accumulators\<close>
  "whenTrue b act st = (if b then act st else st)"

definition whenSome :: "'a option \<Rightarrow> ('a \<Rightarrow> vstate \<Rightarrow> vstate) \<Rightarrow> vstate \<Rightarrow> vstate" where
  \<comment> \<open>\<open>if (x !== null && x !== undefined) { act }\<close>, and \<open>if (x) { act }\<close> for an array\<close>
  "whenSome x act st = (case x of None \<Rightarrow> st | Some v \<Rightarrow> act v st)"

definition seen :: "string option \<Rightarrow> string set \<Rightarrow> bool" where
  \<comment> \<open>\<open>if (x) { if (ids.has(x)) ... }\<close>: the identifier is not empty and is in the set\<close>
  "seen x ids = (case x of None \<Rightarrow> False | Some s \<Rightarrow> s \<noteq> '''' \<and> s \<in> ids)"

definition remember :: "string option \<Rightarrow> string set \<Rightarrow> string set" where
  \<comment> \<open>\<open>if (x) { ...; ids.add(x) }\<close>\<close>
  "remember x ids = (case x of None \<Rightarrow> ids | Some s \<Rightarrow> if s \<noteq> '''' then insert s ids else ids)"

definition asString :: "attributes \<Rightarrow> string option" where
  \<comment> \<open>\<open>typeof a === 'string'\<close>, with the string\<close>
  "asString a = (case a of AttributesObject ob \<Rightarrow> None | AttributesString s \<Rightarrow> Some s)"

definition interp :: "string option \<Rightarrow> string" where
  \<comment> \<open>a string field inside a template literal, read only where the field is a string\<close>
  "interp x = (case x of None \<Rightarrow> ''undefined'' | Some s \<Rightarrow> s)"

definition maxWithZero :: "real list \<Rightarrow> real" where
  \<comment> \<open>\<open>Math.max(...xs, 0)\<close>\<close>
  "maxWithZero xs = fold max xs 0"

definition mathRound :: "real \<Rightarrow> int" where
  \<comment> \<open>\<open>Math.round\<close>: the nearest integer, a tie going up\<close>
  "mathRound x = \<lfloor>x + 1 / 2\<rfloor>"

section \<open>Entity validator\<close>

text \<open>
  One pass of each \<open>forEach\<close> is a step function on the accumulators and the set of
  identifiers seen so far; the checks come in the order of the source.
\<close>

definition clientStep :: "nat \<Rightarrow> Client \<Rightarrow> vstate \<times> string set \<Rightarrow> vstate \<times> string set" where
  "clientStep index client acc = (case acc of (st0, clientIds) \<Rightarrow>
     (let st1 = whenTrue (\<not> truthy (ClientID client))
                  (addError clients index ''ClientID''
                     ''Missing required field: ClientID'' (strVal (ClientID client)) None) st0;
          st2 = whenTrue (\<not> truthy (ClientName client))
                  (addError clients index ''ClientName''
                     ''Missing required field: ClientName'' (strVal (ClientName client)) None) st1;
          st3 = whenTrue (PriorityLevel client = None)
                  (addError clients index ''PriorityLevel''
                     ''Missing required field: PriorityLevel'' VNull None) st2;
          st4 = whenTrue (seen (ClientID client) clientIds)
                  (addError clients index ''ClientID''
                     (''Duplicate ClientID: '' @ interp (ClientID client)) (strVal (ClientID client))
                     (Some ''Consider adding a suffix or using a unique identifier'')) st3;
          clientIds' = remember (ClientID client) clientIds;
          st5 = whenSome (PriorityLevel client) (\<lambda>p.
                  whenTrue (p < 1 \<or> p > 5)
                    (addError clients index ''PriorityLevel''
                       ''PriorityLevel must be between 1 and 5'' (VNum p)
                       (Some ''Use a value between 1 (lowest) and 5 (highest)''))) st4;
          st6 = whenSome (RequestedTaskIDs client) (\<lambda>ids.
                  whenTrue (\<exists>i\<in>set ids. i = '''')
                    (addWarning clients index ''RequestedTaskIDs''
                       ''Some task IDs are empty or invalid'' (VStrs ids) None)) st5;
          st7 = whenSome (AttributesJSON client) (\<lambda>a.
                  whenSome (asString a) (\<lambda>s.
                    whenTrue (s \<noteq> '''' \<and> JSON_parse s = None)
                      (addError clients index ''AttributesJSON''
                         ''Invalid JSON format in AttributesJSON'' (VStr s)
                         (Some ''Ensure proper JSON syntax with quotes around keys and values'')))) st6;
          st8 = whenSome (ClientName client) (\<lambda>n.
                  whenTrue (n \<noteq> '''' \<and> length n < 2)
                    (addWarning clients index ''ClientName''
                       ''Client name seems too short'' (VStr n) None)) st7;
          st9 = whenSome (GroupTag client) (\<lambda>g.
                  whenTrue (g \<noteq> '''' \<and> g \<notin> set [''Enterprise'', ''SMB'', ''Startup'', ''Freelancer''])
                    (addWarning clients index ''GroupTag''
                       ''Unusual group tag value'' (VStr g) None)) st8
      in (st9, clientIds')))"

definition validateClients :: "Client list \<Rightarrow> vstate \<Rightarrow> vstate" where
  "validateClients cs st =
     fst (fold (\<lambda>(index, client). clientStep index client) (enumerate 0 cs) (st, {}))"

definition workerStep :: "nat \<Rightarrow> Worker \<Rightarrow> vstate \<times> string set \<Rightarrow> vstate \<times> string set" where
  "workerStep index worker acc = (case acc of (st0, workerIds) \<Rightarrow>
     (let st1 = whenTrue (\<not> truthy (WorkerID worker))
                  (addError workers index ''WorkerID''
                     ''Missing required field: WorkerID'' (strVal (WorkerID worker)) None) st0;
          st2 = whenTrue (\<not> truthy (WorkerName worker))
                  (addError workers index ''WorkerName''
                     ''Missing required field: WorkerName'' (strVal (WorkerName worker)) None) st1;
          st3 = whenTrue (Skills worker = None \<or> Skills worker = Some [])
                  (addError workers index ''Skills''
                     ''Missing or empty skills array'' (strsVal (Skills worker))
                     (Some ''Add at least one skill'')) st2;
          st4 = whenTrue (seen (WorkerID worker) workerIds)
                  (addError workers index ''WorkerID''
                     (''Duplicate WorkerID: '' @ interp (WorkerID worker)) (strVal (WorkerID worker))
                     None) st3;
          workerIds' = remember (WorkerID worker) workerIds;
          st5 = whenSome (AvailableSlots worker) (\<lambda>slots.
                  let invalidSlots = filter (\<lambda>slot. slot < 0) slots
                  in whenTrue (length invalidSlots > 0)
                       (addError workers index ''AvailableSlots''
                          ''Invalid slot values (must be positive numbers)''
                          (VNums invalidSlots) None)) st4;
          st6 = whenSome (MaxLoadPerPhase worker) (\<lambda>load st.
                  let sta = whenTrue (load \<le> 0)
                              (addError workers index ''MaxLoadPerPhase''
                                 ''MaxLoadPerPhase must be greater than 0'' (VNum load) None) st
                  in whenSome (AvailableSlots worker) (\<lambda>slots.
                       whenTrue (load > maxWithZero slots)
                         (addWarning workers index ''MaxLoadPerPhase''
                            ''MaxLoadPerPhase exceeds maximum available slots''
                            (VNum load) None)) sta) st5;
          st7 = whenSome (Skills worker) (\<lambda>skills.
                  let emptySkills = filter (\<lambda>skill. skill = '''') skills
                  in whenTrue (length emptySkills > 0)
                       (addWarning workers index ''Skills''
                          ''Some skills are empty or invalid'' (VStrs emptySkills) None)) st6;
          st8 = whenSome (WorkerName worker) (\<lambda>n.
                  whenTrue (n \<noteq> '''' \<and> length n < 2)
                    (addWarning workers index ''WorkerName''
                       ''Worker name seems too short'' (VStr n) None)) st7;
          st9 = whenSome (QualificationLevel worker) (\<lambda>q.
                  whenTrue (q < 1 \<or> q > 10)
                    (addWarning workers index ''QualificationLevel''
                       ''Unusual qualification level (expected 1-10)'' (VNum q) None)) st8
      in (st9, workerIds')))"

definition validateWorkers :: "Worker list \<Rightarrow> vstate \<Rightarrow> vstate" where
  "validateWorkers ws st =
     fst (fold (\<lambda>(index, worker). workerStep index worker) (enumerate 0 ws) (st, {}))"

definition taskStep :: "nat \<Rightarrow> Task \<Rightarrow> vstate \<times> string set \<Rightarrow> vstate \<times> string set" where
  "taskStep index task acc = (case acc of (st0, taskIds) \<Rightarrow>
     (let st1 = whenTrue (\<not> truthy (TaskID task))
                  (addError tasks index ''TaskID''
                     ''Missing required field: TaskID'' (strVal (TaskID task)) None) st0;
          st2 = whenTrue (\<not> truthy (TaskName task))
                  (addError tasks index ''TaskName''
                     ''Missing required field: TaskName'' (strVal (TaskName task)) None) st1;
          st3 = whenTrue (\<not> truthy (Category task))
                  (addError tasks index ''Category''
                     ''Missing required field: Category'' (strVal (Category task)) None) st2;
          st4 = whenTrue (Duration task = None)
                  (addError tasks index ''Duration''
                     ''Missing required field: Duration'' VNull None) st3;
          st5 = whenTrue (seen (TaskID task) taskIds)
                  (addError tasks index ''TaskID''
                     (''Duplicate TaskID: '' @ interp (TaskID task)) (strVal (TaskID task)) None) st4;
          taskIds' = remember (TaskID task) taskIds;
          st6 = whenSome (Duration task) (\<lambda>d st.
                  let sta = whenTrue (d \<le> 0)
                              (addError tasks index ''Duration''
                                 ''Duration must be greater than 0'' (VNum d) None) st
                  in whenTrue (d > 1000)
                       (addWarning tasks index ''Duration''
                          ''Unusually long duration'' (VNum d) None) sta) st5;
          st7 = whenSome (RequiredSkills task) (\<lambda>skills.
                  if length skills = 0
                  then addWarning tasks index ''RequiredSkills''
                         ''No required skills specified'' (VStrs skills) None
                  else
                    (let emptySkills = filter (\<lambda>skill. skill = '''') skills
                     in whenTrue (length emptySkills > 0)
                          (addWarning tasks index ''RequiredSkills''
                             ''Some required skills are empty or invalid''
                             (VStrs emptySkills) None))) st6;
          st8 = whenSome (PreferredPhases task) (\<lambda>phases.
                  let invalidPhases = filter (\<lambda>phase. phase < 1) phases
                  in whenTrue (length invalidPhases > 0)
                       (addError tasks index ''PreferredPhases''
                          ''Invalid phase values (must be positive numbers)''
                          (VNums invalidPhases) None)) st7;
          st9 = whenSome (MaxConcurrent task) (\<lambda>m.
                  whenTrue (m \<le> 0)
                    (addError tasks index ''MaxConcurrent''
                       ''MaxConcurrent must be greater than 0'' (VNum m) None)) st8;
          st10 = whenSome (TaskName task) (\<lambda>n.
                   whenTrue (n \<noteq> '''' \<and> length n < 3)
                     (addWarning tasks index ''TaskName''
                        ''Task name seems too short'' (VStr n) None)) st9
      in (st10, taskIds')))"

definition validateTasks :: "Task list \<Rightarrow> vstate \<Rightarrow> vstate" where
  "validateTasks ts st =
     fst (fold (\<lambda>(index, task). taskStep index task) (enumerate 0 ts) (st, {}))"

section \<open>Cross-entity validator\<close>

text \<open>
  Two messages of this part print numbers. How the host prints a number is a parameter,
  \<open>numStr\<close>; no claim depends on it.
\<close>

definition crossClientStep :: "string option set \<Rightarrow> nat \<times> Client \<Rightarrow> vstate \<Rightarrow> vstate" where
  "crossClientStep taskIds ic = (case ic of (index, client) \<Rightarrow>
     whenSome (RequestedTaskIDs client) (\<lambda>ids.
       let invalidTaskIds = filter (\<lambda>taskId. Some taskId \<notin> taskIds) ids
       in whenTrue (length invalidTaskIds > 0)
            (addError clients index ''RequestedTaskIDs''
               (''Referenced task IDs not found: '' @ join '', '' invalidTaskIds)
               (VStrs invalidTaskIds) None)))"

definition crossSkillStep :: "string set \<Rightarrow> nat \<times> Task \<Rightarrow> vstate \<Rightarrow> vstate" where
  "crossSkillStep allSkills it = (case it of (index, task) \<Rightarrow>
     whenSome (RequiredSkills task) (\<lambda>skills.
       let uncoveredSkills = filter (\<lambda>skill. skill \<notin> allSkills) skills
       in whenTrue (length uncoveredSkills > 0)
            (addWarning tasks index ''RequiredSkills''
               (''No workers have these required skills: '' @ join '', '' uncoveredSkills)
               (VStrs uncoveredSkills) None)))"

definition crossPhaseStep :: "(real \<Rightarrow> string) \<Rightarrow> real \<Rightarrow> nat \<times> Task \<Rightarrow> vstate \<Rightarrow> vstate" where
  "crossPhaseStep numStr maxPhase it = (case it of (index, task) \<Rightarrow>
     whenSome (PreferredPhases task) (\<lambda>phases.
       let invalidPhases = filter (\<lambda>phase. phase > maxPhase) phases
       in whenTrue (length invalidPhases > 0)
            (addWarning tasks index ''PreferredPhases''
               (''Some preferred phases exceed worker availability: '' @
                  join '', '' (map numStr invalidPhases))
               (VNums invalidPhases) None)))"

definition validateCrossReferences :: "(real \<Rightarrow> string) \<Rightarrow> AllData \<Rightarrow> vstate \<Rightarrow> vstate" where
  "validateCrossReferences numStr allData st0 =
     (let taskIds = set (map TaskID (all_tasks allData));
          allSkills = set (concat (map (\<lambda>w. case Skills w of None \<Rightarrow> [] | Some ss \<Rightarrow> ss)
                                     (all_workers allData)));
          st1 = fold (crossClientStep taskIds) (enumerate 0 (all_clients allData)) st0;
          st2 = fold (crossSkillStep allSkills) (enumerate 0 (all_tasks allData)) st1;
          maxPhase = maxWithZero
                       (concat (map (\<lambda>w. case AvailableSlots w of None \<Rightarrow> [] | Some ss \<Rightarrow> ss)
                                  (all_workers allData)));
          st3 = fold (crossPhaseStep numStr maxPhase) (enumerate 0 (all_tasks allData)) st2;
          totalTaskDuration =
            fold (\<lambda>task sum. sum + (case Duration task of None \<Rightarrow> 0 | Some d \<Rightarrow> d))
              (all_tasks allData) 0;
          totalWorkerCapacity =
            fold (\<lambda>worker sum.
                    sum + (case MaxLoadPerPhase worker of None \<Rightarrow> 0 | Some l \<Rightarrow> l) *
                          (case AvailableSlots worker of
                             None \<Rightarrow> 1
                           | Some ss \<Rightarrow> if length ss = 0 then 1 else real (length ss)))
              (all_workers allData) 0
      in whenTrue (totalTaskDuration > totalWorkerCapacity)
           (addWarning tasks 0 ''Duration''
              ''Total task duration may exceed total worker capacity''
              (VStr (numStr totalTaskDuration @ '' hrs vs '' @ numStr totalWorkerCapacity @
                     '' hrs capacity'')) None) st3)"


section \<open>\<open>validate\<close> and \<open>generateAutoFix\<close>\<close>

text \<open>
  The collection to validate comes with its kind (the source casts \<open>data\<close> as the kind says).
\<close>

datatype dataset = ClientData "Client list" | WorkerData "Worker list" | TaskData "Task list"

definition dataLength :: "dataset \<Rightarrow> nat" where
  "dataLength data = (case data of
     ClientData cs \<Rightarrow> length cs | WorkerData ws \<Rightarrow> length ws | TaskData ts \<Rightarrow> length ts)"

definition validate :: "(real \<Rightarrow> string) \<Rightarrow> dataset \<Rightarrow> AllData option \<Rightarrow> ValidationResult" where
  "validate numStr data allData =
     (let st0 = ([], []);
          st1 = (case data of
                   ClientData cs \<Rightarrow> validateClients cs st0
                 | WorkerData ws \<Rightarrow> validateWorkers ws st0
                 | TaskData ts \<Rightarrow> validateTasks ts st0);
          st2 = (case allData of
                   None \<Rightarrow> st1
                 | Some ad \<Rightarrow> validateCrossReferences numStr ad st1);
          errs = fst st2;
          warns = snd st2;
          totalErrs = length errs;
          totalWarns = length warns;
          valid = int (dataLength data) - int (length (filter (\<lambda>e. type e = error) errs));
          conf = (if dataLength data > 0
                  then mathRound (real_of_int valid / real (dataLength data) * 100)
                  else 100)
      in \<lparr>isValid = (totalErrs = 0), errors = errs, warnings = warns, confidence = conf,
          summary = \<lparr>totalErrors = totalErrs, totalWarnings = totalWarns, validRows = valid,
                      totalRows = dataLength data\<rparr>\<rparr>)"

definition splitTrimmed :: "string \<Rightarrow> string list" where
  \<comment> \<open>\<open>s.split(',').map(s => s.trim()).filter(s => s)\<close>\<close>
  "splitTrimmed s = filter (\<lambda>p. p \<noteq> '''') (map trim (split_comma s))"

definition generateAutoFix :: "ValidationError \<Rightarrow> errval" where
  "generateAutoFix err =
     (if column err = ''PriorityLevel'' then
        (case val err of
           VNum v \<Rightarrow> VNum (max 1 (min 5 (real_of_int (mathRound v))))
         | _ \<Rightarrow> VNum 3)
      else if column err = ''Duration'' then
        (case val err of
           VNum v \<Rightarrow> if v \<le> 0 then VNum 1 else val err
         | _ \<Rightarrow> val err)
      else if column err = ''MaxLoadPerPhase'' then
        (case val err of
           VNum v \<Rightarrow> if v \<le> 0 then VNum 8 else val err
         | _ \<Rightarrow> val err)
      else if column err \<in> {''RequestedTaskIDs'', ''Skills'', ''RequiredSkills''} then
        (case val err of
           VStr s \<Rightarrow> VStrs (splitTrimmed s)
         | _ \<Rightarrow> VStrs [])
      else if column err \<in> {''AvailableSlots'', ''PreferredPhases''} then
        (case val err of
           VStr s \<Rightarrow> VVals (List.map_filter (\<lambda>p. parseInt (trim p)) (split_comma s))
         | _ \<Rightarrow> VVals [])
      else val err)"

section \<open>Auxiliary notions for the proofs about the validator\<close>

text \<open>
  The errors one pass adds are the errors it leaves when started on empty accumulators;
  the errors of a whole loop are those of its passes, in order.
\<close>

definition addBoth :: "ValidationError list \<Rightarrow> ValidationError list \<Rightarrow> vstate \<Rightarrow> vstate" where
  "addBoth es ws st = (fst st @ es, snd st @ ws)"

fun clientRun :: "nat \<Rightarrow> Client list \<Rightarrow> string set \<Rightarrow> ValidationError list" where
  "clientRun n [] ids = []"
| "clientRun n (c # cs) ids =
     fst (fst (clientStep n c (([], []), ids))) @ clientRun (Suc n) cs (remember (ClientID c) ids)"

fun crossRun :: "string option set \<Rightarrow> nat \<Rightarrow> Client list \<Rightarrow> ValidationError list" where
  "crossRun taskIds n [] = []"
| "crossRun taskIds n (c # cs) =
     fst (crossClientStep taskIds (n, c) ([], [])) @ crossRun taskIds (Suc n) cs"

definition isDuplicateError :: "ValidationError \<Rightarrow> bool" where
  \<comment> \<open>the diagnostic of the duplicate-identifier check of the client validator\<close>
  "isDuplicateError e =
     (type e = error \<and> column e = ''ClientID'' \<and> startsWith (message e) ''Duplicate ClientID: '')"

definition duplicateError :: "nat \<Rightarrow> string option \<Rightarrow> ValidationError" where
  \<comment> \<open>the diagnostic of the duplicate-identifier check on the given row\<close>
  "duplicateError n x =
     \<lparr>type = error, severity = high, entity = clients, row = n, column = ''ClientID'',
      message = ''Duplicate ClientID: '' @ interp x, val = strVal x,
      suggestion = Some ''Consider adding a suffix or using a unique identifier'',
      autoFixAvailable = True\<rparr>"

definition seenEarlier :: "Client list \<Rightarrow> string set \<Rightarrow> nat \<Rightarrow> bool" where
  \<comment> \<open>the identifier of row \<open>l\<close> is not empty and is in the running set when the loop, started
      with \<open>ids\<close>, reaches row \<open>l\<close>\<close>
  "seenEarlier cs ids l = seen (ClientID (cs ! l)) (ids \<union> {y. \<exists>k<l. ClientID (cs ! k) = Some y})"


section \<open>The matrix computes the edit distance\<close>

lemma lev_Nil2: "levenshtein s [] = length s" by (cases s) auto

lemma ind_sym: "ind a b = ind b a" by (simp add: ind_def)

lemma lev_Cons: "levenshtein (a # s) (b # t) =
     min (min (levenshtein s (b # t) + 1) (levenshtein (a # s) t + 1))
         (levenshtein s t + ind a b)" by (simp add: ind_def)

lemma lev_sym: "levenshtein s t = levenshtein t s"
proof (induction s t rule: levenshtein.induct)
  case (1 t)
  then show ?case by (simp add: lev_Nil2)
next
  case (2 a s)
  then show ?case by simp
next
  case (3 a s b t)
  then show ?case
    by (simp add: lev_Cons ind_sym [of a b] min.commute min.left_commute del: levenshtein.simps(3))
qed

lemma lev_single_snoc:
  "levenshtein [x] (t @ [y]) =
     min (min (levenshtein [] (t @ [y]) + 1) (levenshtein [x] t + 1)) (levenshtein [] t + ind x y)"
proof (induction t)
  case Nil
  then show ?case by (simp add: ind_def)
next
  case (Cons b t)
  show ?case
    using Cons.IH
    by (simp add: lev_Cons del: levenshtein.simps(3))
qed

lemma lev_snoc_single:
  "levenshtein (s @ [x]) [y] =
     min (min (levenshtein s [y] + 1) (levenshtein (s @ [x]) [] + 1)) (levenshtein s [] + ind x y)"
  using lev_single_snoc [of y s x]
  by (simp add: lev_sym [of "s @ [x]"] lev_sym [of s] ind_sym [of x y] min.commute min.left_commute
      del: levenshtein.simps)

lemma min_rearrange:
  fixes p q r u v w e f g k dab dxy :: nat
  shows "min (min (min (min (p + k) (q + k)) (r + dxy) + k) (min (min (u + k) (v + k)) (w + dxy) + k)) (min (min (e + k) (f + k)) (g + dxy) + dab)
       = min (min (min (min (p + k) (u + k)) (e + dab) + k) (min (min (q + k) (v + k)) (f + dab) + k)) (min (min (r + k) (w + k)) (g + dab) + dxy)"
  apply (simp only: min_add_distrib_left)
  apply (simp only: add.assoc add.commute add.left_commute min.assoc min.commute min.left_commute)
  done

lemma lev_snoc:
  "levenshtein (s @ [x]) (t @ [y]) =
     min (min (levenshtein s (t @ [y]) + 1) (levenshtein (s @ [x]) t + 1))
         (levenshtein s t + ind x y)"
proof (induction s t rule: levenshtein.induct)
  case (1 t)
  show ?case using lev_single_snoc [of x t y] by simp
next
  case (2 a s)
  show ?case using lev_snoc_single [of "a # s" x y] by simp
next
  case (3 a s b t)
  note IH = "3.IH" [unfolded append_Cons]
  show ?case
    apply (simp only: append_Cons lev_Cons)
    apply (simp only: IH)
    apply (rule min_rearrange)
    done
qed

lemma lev_le_max: "levenshtein s t \<le> max (length s) (length t)"
proof (induction s t rule: levenshtein.induct)
  case (3 a s b t)
  have "levenshtein (a # s) (b # t) \<le> levenshtein s t + 1"
    by (simp add: min_le_iff_disj)
  with "3.IH"(3) show ?case by simp
qed simp_all

lemma fold_upt_invariant:
  assumes "P a m" and "\<And>k m. a \<le> k \<Longrightarrow> k < b \<Longrightarrow> P k m \<Longrightarrow> P (Suc k) (f k m)" and "a \<le> b"
  shows "P b (fold f [a..<b] m)"
  using assms(3,2)
proof (induction b)
  case 0
  with assms(1) show ?case by simp
next
  case (Suc b)
  show ?case
  proof (cases "a \<le> b")
    case True
    have "P b (fold f [a..<b] m)"
      using Suc.IH [OF True] Suc.prems(2) by simp
    then have "P (Suc b) (f b (fold f [a..<b] m))"
      using Suc.prems(2) [of b] True by simp
    with True show ?thesis by simp
  next
    case False
    with Suc.prems(1) have "a = Suc b" by simp
    with assms(1) show ?thesis by simp
  qed
qed

lemma shape_setCell: "shape n1 n2 m \<Longrightarrow> shape n1 n2 (setCell m j i v)"
  by (cases "j < length m") (auto simp: shape_def setCell_def nth_list_update)

lemma nth_setCell:
  "shape n1 n2 m \<Longrightarrow> j \<le> n2 \<Longrightarrow> i \<le> n1 \<Longrightarrow> j' \<le> n2 \<Longrightarrow>
   setCell m j i v ! j' ! i' = (if j' = j \<and> i' = i then v else m ! j' ! i')"
  by (cases "j < length m") (auto simp: shape_def setCell_def nth_list_update)

lemma prefixDist_0_left: "j \<le> length s2 \<Longrightarrow> prefixDist s1 s2 0 j = j"
  by (simp add: prefixDist_def)

lemma prefixDist_0_right: "i \<le> length s1 \<Longrightarrow> prefixDist s1 s2 i 0 = i"
  by (simp add: prefixDist_def lev_Nil2)

lemma prefixDist_Suc:
  assumes "i < length s1" "j < length s2"
  shows "prefixDist s1 s2 (Suc i) (Suc j) =
         min (min (prefixDist s1 s2 i (Suc j) + 1) (prefixDist s1 s2 (Suc i) j + 1))
             (prefixDist s1 s2 i j + (if s1 ! i = s2 ! j then 0 else 1))"
  using assms lev_snoc [of "take i s1" "s1 ! i" "take j s2" "s2 ! j"]
  by (simp add: prefixDist_def take_Suc_conv_app_nth ind_def)

lemma shape_replicate: "shape n1 n2 (replicate (Suc n2) (replicate (Suc n1) 0))"
  by (simp add: shape_def less_Suc_eq_le del: replicate_Suc)

lemma initMatrix_rowsDone: "rowsDone s1 s2 1 (initMatrix s1 s2)"
proof -
  let ?n1 = "length s1" and ?n2 = "length s2"
  let ?m0 = "replicate (?n2 + 1) (replicate (?n1 + 1) (0::nat))"
  let ?m1 = "fold (\<lambda>i m. setCell m 0 i i) [0..<?n1 + 1] ?m0"
  let ?P = "\<lambda>k m. shape ?n1 ?n2 m \<and> (\<forall>i<k. m ! 0 ! i = i)"
  have "?P (?n1 + 1) ?m1"
  proof (rule fold_upt_invariant [where P = ?P])
    show "?P 0 ?m0" using shape_replicate [of ?n1 ?n2] by simp
  next
    fix k m assume "k < ?n1 + 1" "?P k m"
    then show "?P (Suc k) (setCell m 0 k k)"
      by (auto simp: shape_setCell nth_setCell [where ?n1.0 = ?n1 and ?n2.0 = ?n2] less_Suc_eq)
  qed simp
  then have m1: "shape ?n1 ?n2 ?m1" "\<forall>i\<le>?n1. ?m1 ! 0 ! i = i" by auto
  let ?Q = "\<lambda>k m. shape ?n1 ?n2 m \<and> (\<forall>i\<le>?n1. m ! 0 ! i = i) \<and> (\<forall>j<k. m ! j ! 0 = j)"
  have "?Q (?n2 + 1) (fold (\<lambda>j m. setCell m j 0 j) [0..<?n2 + 1] ?m1)"
  proof (rule fold_upt_invariant [where P = ?Q])
    show "?Q 0 ?m1" using m1 by simp
  next
    fix k m assume "k < ?n2 + 1" "?Q k m"
    then show "?Q (Suc k) (setCell m k 0 k)"
      by (auto simp: shape_setCell nth_setCell [where ?n1.0 = ?n1 and ?n2.0 = ?n2] less_Suc_eq)
  qed simp
  then show ?thesis
    by (auto simp: rowsDone_def initMatrix_def Let_def prefixDist_0_right)
qed

lemma cellStep_cellsDone:
  assumes "cellsDone s1 s2 j i m" "1 \<le> j" "j \<le> length s2" "1 \<le> i" "i \<le> length s1"
  shows "cellsDone s1 s2 j (Suc i) (cellStep s1 s2 j i m)"
proof -
  let ?n1 = "length s1" and ?n2 = "length s2"
  from assms obtain i' j' where ij: "i = Suc i'" "j = Suc j'" "i' < ?n1" "j' < ?n2"
    by (cases i; cases j) auto
  have sh: "shape ?n1 ?n2 m" using assms(1) by (simp add: cellsDone_def rowsDone_def)
  have left: "m ! j ! (i - 1) = prefixDist s1 s2 i' j"
    using assms(1) ij by (simp add: cellsDone_def)
  have up: "m ! (j - 1) ! i = prefixDist s1 s2 i j'"
    using assms(1,5) ij by (simp add: cellsDone_def rowsDone_def)
  have diag: "m ! (j - 1) ! (i - 1) = prefixDist s1 s2 i' j'"
    using assms(1) ij by (simp add: cellsDone_def rowsDone_def)
  have val: "cellStep s1 s2 j i m = setCell m j i (prefixDist s1 s2 i j)"
    using left up diag ij prefixDist_Suc [of i' s1 j' s2]
    by (simp add: cellStep_def Let_def)
  show ?thesis
    unfolding val using assms
    by (auto simp: cellsDone_def rowsDone_def shape_setCell
          nth_setCell [where ?n1.0 = ?n1 and ?n2.0 = ?n2] less_Suc_eq)
qed

lemma cellsDone_full:
  assumes "cellsDone s1 s2 j (length s1 + 1) m"
  shows "rowsDone s1 s2 (Suc j) m"
proof -
  have "m ! j' ! i = prefixDist s1 s2 i j'" if "j' < Suc j" "i \<le> length s1" for j' i
  proof (cases "j' = j")
    case True
    then show ?thesis using assms that(2) by (simp add: cellsDone_def)
  next
    case False
    then have "j' < j" using that(1) by simp
    then show ?thesis using assms that(2) by (simp add: cellsDone_def rowsDone_def)
  qed
  then show ?thesis using assms by (simp add: cellsDone_def rowsDone_def)
qed

lemma row_rowsDone:
  assumes "rowsDone s1 s2 j m" "1 \<le> j" "j \<le> length s2"
  shows "rowsDone s1 s2 (Suc j) (fold (cellStep s1 s2 j) [1..<length s1 + 1] m)"
proof -
  have "cellsDone s1 s2 j (length s1 + 1) (fold (cellStep s1 s2 j) [1..<length s1 + 1] m)"
  proof (rule fold_upt_invariant [where P = "cellsDone s1 s2 j"])
    show "cellsDone s1 s2 j 1 m"
      using assms by (simp add: cellsDone_def rowsDone_def prefixDist_0_left)
  next
    fix k m' assume "1 \<le> k" "k < length s1 + 1" "cellsDone s1 s2 j k m'"
    then show "cellsDone s1 s2 j (Suc k) (cellStep s1 s2 j k m')"
      using cellStep_cellsDone [of s1 s2 j k m'] assms(2,3) by simp
  qed simp
  then show ?thesis by (rule cellsDone_full)
qed

lemma fillMatrix_rowsDone: "rowsDone s1 s2 (length s2 + 1) (fillMatrix s1 s2)"
  unfolding fillMatrix_def
proof (rule fold_upt_invariant [where P = "rowsDone s1 s2"])
  show "rowsDone s1 s2 1 (initMatrix s1 s2)" by (rule initMatrix_rowsDone)
next
  fix k m assume "1 \<le> k" "k < length s2 + 1" "rowsDone s1 s2 k m"
  then show "rowsDone s1 s2 (Suc k) (fold (cellStep s1 s2 k) [1..<length s1 + 1] m)"
    using row_rowsDone [of s1 s2 k m] by simp
qed simp

lemma fillMatrix_levenshtein:
  "fillMatrix s1 s2 ! length s2 ! length s1 = levenshtein s1 s2"
  using fillMatrix_rowsDone [of s1 s2] by (simp add: rowsDone_def prefixDist_def)

lemma startsWith_iff: "startsWith s t \<longleftrightarrow> (\<exists>q. s = t @ q)"
  by (induction s t rule: startsWith.induct) auto

lemma includes_str_iff: "includes_str s t \<longleftrightarrow> (\<exists>p q. s = p @ t @ q)"
proof (induction s)
  case Nil
  show ?case by auto
next
  case (Cons a s)
  show ?case
  proof
    assume "includes_str (a # s) t"
    then consider "startsWith (a # s) t" | "includes_str s t" by auto
    then show "\<exists>p q. a # s = p @ t @ q"
    proof cases
      case 1
      then obtain q where "a # s = t @ q" by (auto simp: startsWith_iff)
      then have "a # s = [] @ t @ q" by simp
      then show ?thesis by blast
    next
      case 2
      then obtain p q where "s = p @ t @ q" using Cons.IH by auto
      then have "a # s = (a # p) @ t @ q" by simp
      then show ?thesis by blast
    qed
  next
    assume "\<exists>p q. a # s = p @ t @ q"
    then obtain p q where pq: "a # s = p @ t @ q" by auto
    show "includes_str (a # s) t"
    proof (cases p)
      case Nil
      with pq have "startsWith (a # s) t" by (auto simp: startsWith_iff)
      then show ?thesis by simp
    next
      case (Cons b p')
      with pq have "s = p' @ t @ q" by simp
      then have "includes_str s t" using Cons.IH by auto
      then show ?thesis by simp
    qed
  qed
qed

lemma includes_str_Nil: "includes_str s []"
  by (cases s) simp_all

lemma calculateSimilarity_cases:
  "calculateSimilarity a b =
     (if normalize_str a = normalize_str b then 1
      else if includes_str (normalize_str a) (normalize_str b) \<or>
              includes_str (normalize_str b) (normalize_str a) then 8 / 10
      else 1 - real (levenshtein (normalize_str a) (normalize_str b)) /
               real (max (length (normalize_str a)) (length (normalize_str b))))"
  by (simp add: calculateSimilarity_def Let_def fillMatrix_levenshtein)

lemma calculateSimilarity_range: "0 \<le> calculateSimilarity a b \<and> calculateSimilarity a b \<le> 1"
proof -
  let ?s = "normalize_str a" and ?t = "normalize_str b"
  have "real (levenshtein ?s ?t) / real (max (length ?s) (length ?t)) \<le> 1"
  proof (cases "max (length ?s) (length ?t) = 0")
    case True
    then show ?thesis by simp
  next
    case False
    then have "0 < real (max (length ?s) (length ?t))" by linarith
    moreover have "real (levenshtein ?s ?t) \<le> real (max (length ?s) (length ?t))"
      using lev_le_max [of ?s ?t] by linarith
    ultimately show ?thesis by (simp only: divide_le_eq_1_pos)
  qed
  moreover have "0 \<le> real (levenshtein ?s ?t) / real (max (length ?s) (length ?t))"
    by simp
  ultimately show ?thesis
    unfolding calculateSimilarity_cases by (auto simp del: of_nat_max)
qed


text \<open>
  In the edit-distance branch neither normalized string is empty (the empty string occurs in
  every string), so the division is by a positive length.
\<close>

lemma similarity_denominator_positive:
  assumes "\<not> includes_str (normalize_str a) (normalize_str b)"
    and "\<not> includes_str (normalize_str b) (normalize_str a)"
  shows "0 < max (length (normalize_str a)) (length (normalize_str b))"
proof -
  have "normalize_str b \<noteq> []" using assms(1) includes_str_Nil by force
  then have "0 < length (normalize_str b)" by simp
  then show ?thesis by (simp only: less_max_iff_disj) simp
qed

section \<open>Facts about the header mapper\<close>

lemma isLowerAlnum_toLowerChar: "isLowerAlnum c \<Longrightarrow> toLowerChar c = c"
  by (auto simp: isLowerAlnum_def toLowerChar_def Let_def)

lemma normalize_str_idem: "normalize_str (normalize_str s) = normalize_str s"
proof -
  have "map toLowerChar (filter isLowerAlnum xs) = filter isLowerAlnum xs" for xs
    by (induction xs) (simp_all add: isLowerAlnum_toLowerChar)
  then show ?thesis by (simp add: normalize_str_def toLowerCase_def)
qed

lemma direct_match_similarity:
  "calculateSimilarity header (normalize_str header) = 1"
  by (simp add: calculateSimilarity_cases normalize_str_idem)

lemma fold_altStep:
  "fold (altStep header) alts best = best \<or>
   (\<exists>alt\<in>set alts. fold (altStep header) alts best = (header, calculateSimilarity header alt) \<and>
       calculateSimilarity header alt > 6 / 10)"
proof (induction alts arbitrary: best)
  case Nil
  show ?case by simp
next
  case (Cons a alts)
  obtain bm bs where best: "best = (bm, bs)" by (cases best)
  show ?case
  proof (cases "calculateSimilarity header a > bs \<and> calculateSimilarity header a > 6 / 10")
    case True
    then have step: "altStep header a best = (header, calculateSimilarity header a)"
      by (simp add: altStep_def best)
    from Cons.IH [of "(header, calculateSimilarity header a)"] True show ?thesis
      by (auto simp: step)
  next
    case False
    then have step: "altStep header a best = best"
      by (auto simp: altStep_def best)
    from Cons.IH [of best] show ?thesis
      by (auto simp: step)
  qed
qed

lemma fold_altStep_top: "fold (altStep header) alts (c, 1) = (c, 1)"
proof (induction alts)
  case Nil
  show ?case by simp
next
  case (Cons a alts)
  have "altStep header a (c, 1) = (c, 1)"
    using calculateSimilarity_range [of header a] by (simp add: altStep_def)
  with Cons show ?case by simp
qed

lemma headerStep_cases:
  "headerStep used alts header best = best \<or>
   (header \<notin> used \<and>
    (\<exists>alt\<in>set alts. headerStep used alts header best = (header, calculateSimilarity header alt) \<and>
        calculateSimilarity header alt > 6 / 10))"
proof (cases "header \<in> used")
  case True
  then show ?thesis by (simp add: headerStep_def)
next
  case False
  show ?thesis
  proof (cases "normalize_str header \<in> set alts")
    case True
    with False show ?thesis
      using direct_match_similarity [of header]
      by (auto simp: headerStep_def intro!: bexI [of _ "normalize_str header"])
  next
    case nodirect: False
    with False fold_altStep [of header alts best] show ?thesis
      by (auto simp: headerStep_def)
  qed
qed

lemma fold_headerStep:
  "fold (headerStep used alts) headers best = best \<or>
   (\<exists>h\<in>set headers. h \<notin> used \<and>
     (\<exists>alt\<in>set alts. fold (headerStep used alts) headers best = (h, calculateSimilarity h alt) \<and>
         calculateSimilarity h alt > 6 / 10))"
proof (induction headers arbitrary: best)
  case Nil
  show ?case by simp
next
  case (Cons h headers)
  from headerStep_cases [of used alts h best]
  show ?case
  proof
    assume "headerStep used alts h best = best"
    with Cons.IH [of best] show ?thesis by auto
  next
    assume a: "h \<notin> used \<and>
      (\<exists>alt\<in>set alts. headerStep used alts h best = (h, calculateSimilarity h alt) \<and>
          calculateSimilarity h alt > 6 / 10)"
    from Cons.IH [of "headerStep used alts h best"]
    show ?thesis
    proof
      assume "fold (headerStep used alts) headers (headerStep used alts h best) =
              headerStep used alts h best"
      with a show ?thesis by auto
    next
      assume "\<exists>h'\<in>set headers. h' \<notin> used \<and>
        (\<exists>alt\<in>set alts. fold (headerStep used alts) headers (headerStep used alts h best) =
            (h', calculateSimilarity h' alt) \<and> calculateSimilarity h' alt > 6 / 10)"
      then show ?thesis by auto
    qed
  qed
qed

lemma fold_headerStep_direct:
  assumes "filter (\<lambda>h. h \<notin> used \<and> normalize_str h \<in> set alts) headers \<noteq> []"
  shows "fold (headerStep used alts) headers best =
         (last (filter (\<lambda>h. h \<notin> used \<and> normalize_str h \<in> set alts) headers), 1)"
  using assms
proof (induction headers rule: rev_induct)
  case Nil
  then show ?case by simp
next
  case (snoc h headers)
  let ?direct = "\<lambda>h. h \<notin> used \<and> normalize_str h \<in> set alts"
  show ?case
  proof (cases "?direct h")
    case True
    then show ?thesis by (simp add: headerStep_def)
  next
    case False
    with snoc.prems have ne: "filter ?direct headers \<noteq> []" by simp
    have "fold (headerStep used alts) headers best = (last (filter ?direct headers), 1)"
      using snoc.IH [OF ne] .
    moreover have "headerStep used alts h (c, 1) = (c, 1)" for c
      using False by (auto simp: headerStep_def fold_altStep_top)
    ultimately show ?thesis using False by simp
  qed
qed

lemma fieldStep_choice:
  "fieldStep headers (field, alts) (result, used) =
     (case fieldChoice headers used alts of
        Some h \<Rightarrow> (AList.update field h result, insert h used)
      | None \<Rightarrow> (result, used))"
  by (simp add: fieldStep_def fieldChoice_def split: prod.splits)

lemma fieldChoice_Some:
  assumes "fieldChoice headers used alts = Some h"
  shows "h \<in> set headers \<and> h \<notin> used \<and> h \<noteq> '''' \<and>
         (\<exists>alt\<in>set alts. calculateSimilarity h alt > 6 / 10)"
proof -
  obtain bm bs where fold: "fold (headerStep used alts) headers ('''', 0) = (bm, bs)"
    by (cases "fold (headerStep used alts) headers ('''', 0)")
  with assms have h: "bm = h" "h \<noteq> ''''"
    by (auto simp: fieldChoice_def split: if_splits)
  from fold_headerStep [of used alts headers "('''', 0)"] fold h show ?thesis
    by auto
qed

lemma fieldChoice_direct:
  assumes "filter (\<lambda>h. h \<notin> used \<and> normalize_str h \<in> set alts) headers \<noteq> []"
    and "'''' \<notin> set alts"
  shows "fieldChoice headers used alts =
         Some (last (filter (\<lambda>h. h \<notin> used \<and> normalize_str h \<in> set alts) headers))"
proof -
  let ?c = "filter (\<lambda>h. h \<notin> used \<and> normalize_str h \<in> set alts) headers"
  have "last ?c \<in> set ?c" using assms(1) by (rule last_in_set)
  then have "normalize_str (last ?c) \<in> set alts" by simp
  with assms(2) have "last ?c \<noteq> ''''"
    by (auto simp: normalize_str_def toLowerCase_def)
  then show ?thesis
    by (simp add: fieldChoice_def fold_headerStep_direct [OF assms(1)])
qed

lemma update_values_subset: "snd ` set (AList.update k v al) \<subseteq> insert v (snd ` set al)"
  by (induction al) auto

lemma update_values_distinct:
  "distinct (map snd al) \<Longrightarrow> v \<notin> snd ` set al \<Longrightarrow> distinct (map snd (AList.update k v al))"
proof (induction al)
  case Nil
  show ?case by simp
next
  case (Cons e al)
  obtain k' v' where e: "e = (k', v')" by (cases e)
  show ?case
  proof (cases "k' = k")
    case True
    with Cons.prems e show ?thesis by (auto simp: image_iff)
  next
    case False
    have "snd ` set (AList.update k v al) \<subseteq> insert v (snd ` set al)"
      by (rule update_values_subset)
    with Cons e False show ?thesis by (auto simp: image_iff)
  qed
qed

lemma fieldStep_ok:
  assumes "mapState_ok st"
  shows "mapState_ok (fieldStep headers entry st)"
proof -
  obtain field alts where entry: "entry = (field, alts)" by (cases entry)
  obtain result used where st: "st = (result, used)" by (cases st)
  show ?thesis
  proof (cases "fieldChoice headers used alts")
    case None
    with assms show ?thesis by (simp add: entry st fieldStep_choice)
  next
    case (Some h)
    then have "h \<notin> used" using fieldChoice_Some by blast
    with assms have fresh: "h \<notin> snd ` set result" by (auto simp: mapState_ok_def st)
    have "snd ` set (AList.update field h result) \<subseteq> insert h used"
      using update_values_subset [of field h result] assms by (auto simp: mapState_ok_def st)
    moreover have "distinct (map snd (AList.update field h result))"
      using assms fresh by (simp add: mapState_ok_def st update_values_distinct)
    moreover have "distinct (map fst (AList.update field h result))"
      using assms by (simp add: mapState_ok_def st distinct_update)
    ultimately show ?thesis by (simp add: entry st fieldStep_choice Some mapState_ok_def)
  qed
qed

lemma fold_fieldStep_ok:
  "mapState_ok st \<Longrightarrow> mapState_ok (fold (fieldStep headers) mappings st)"
  by (induction mappings arbitrary: st) (simp_all add: fieldStep_ok)

lemma mapFields_ok: "mapState_ok (mapFields headers mappings)"
  unfolding mapFields_def by (rule fold_fieldStep_ok) (simp add: mapState_ok_def)

lemma fieldStep_other_key:
  "fst entry \<noteq> field \<Longrightarrow> map_of (fst (fieldStep headers entry st)) field = map_of (fst st) field"
  by (cases entry; cases st) (simp add: fieldStep_choice update_conv' split: option.splits)

lemma fold_fieldStep_other_keys:
  "field \<notin> fst ` set mappings \<Longrightarrow>
   map_of (fst (fold (fieldStep headers) mappings st)) field = map_of (fst st) field"
  by (induction mappings arbitrary: st) (auto simp: fieldStep_other_key)

lemma mapFields_absent:
  "field \<notin> fst ` set mappings \<Longrightarrow> map_of (fst (mapFields headers mappings)) field = None"
  by (simp add: mapFields_def fold_fieldStep_other_keys)

lemma mapFields_split:
  assumes "distinct (map fst mappings)" "map_of mappings field = Some alts"
  shows "map_of (fst (mapFields headers mappings)) field =
         fieldChoice headers
           (snd (mapFields headers (takeWhile (\<lambda>entry. fst entry \<noteq> field) mappings))) alts"
proof -
  let ?pre = "takeWhile (\<lambda>entry. fst entry \<noteq> field) mappings"
  let ?post = "dropWhile (\<lambda>entry. fst entry \<noteq> field) mappings"
  from assms(2) have "field \<in> fst ` set mappings" by (force dest: map_of_SomeD)
  then have ne: "?post \<noteq> []" by (auto simp: dropWhile_eq_Nil_conv)
  then obtain e rest where post: "?post = e # rest" by (cases ?post) auto
  have fe: "fst e = field" using hd_dropWhile [OF ne] post by simp
  have split: "mappings = ?pre @ e # rest" using post takeWhile_dropWhile_id [of _ mappings]
    by metis
  have "distinct (map fst (?pre @ e # rest))" using assms(1) split by simp
  then have notin: "field \<notin> fst ` set ?pre" "field \<notin> fst ` set rest"
    using fe by (auto simp: image_iff)
  have "map_of (?pre @ e # rest) field = Some (snd e)"
    using notin(1) fe by (cases e) (simp add: map_add_def map_of_eq_None_iff [THEN iffD2])
  with split assms(2) have e: "e = (field, alts)" using fe by (cases e) simp
  obtain result used where st: "mapFields headers ?pre = (result, used)"
    by (cases "mapFields headers ?pre")
  have none: "map_of result field = None"
    using mapFields_absent [OF notin(1), of headers] st by simp
  have "mapFields headers mappings =
        fold (fieldStep headers) rest (fieldStep headers e (mapFields headers ?pre))"
    by (subst split) (simp add: mapFields_def)
  then have "map_of (fst (mapFields headers mappings)) field =
             map_of (fst (fieldStep headers e (mapFields headers ?pre))) field"
    by (simp add: fold_fieldStep_other_keys [OF notin(2)])
  also have "\<dots> = fieldChoice headers used alts"
    using none by (simp add: e st fieldStep_choice update_conv' split: option.splits)
  finally show ?thesis by (simp add: st)
qed

lemma HEADER_MAPPINGS_distinct: "distinct (map fst (HEADER_MAPPINGS dataType))"
  by (cases dataType) (simp_all add: HEADER_MAPPINGS_def)

lemma HEADER_MAPPINGS_nonempty_alts:
  "map_of (HEADER_MAPPINGS dataType) field = Some alts \<Longrightarrow> '''' \<notin> set alts"
  by (cases dataType) (auto simp: HEADER_MAPPINGS_def split: if_splits)

lemma mapHeaders_field:
  "map_of (mapHeaders headers dataType) field =
     (case map_of (HEADER_MAPPINGS dataType) field of
        None \<Rightarrow> None
      | Some alts \<Rightarrow> fieldChoice headers (claimedBefore headers dataType field) alts)"
proof (cases "map_of (HEADER_MAPPINGS dataType) field")
  case None
  then have "field \<notin> fst ` set (HEADER_MAPPINGS dataType)"
    by (simp add: map_of_eq_None_iff)
  then show ?thesis using None by (simp add: mapHeaders_def mapFields_absent)
next
  case (Some alts)
  then show ?thesis
    using mapFields_split [OF HEADER_MAPPINGS_distinct Some, of headers]
    by (simp add: mapHeaders_def claimedBefore_def)
qed


section \<open>The JSON parser consumes input\<close>

lemma length_skipWs: "length (skipWs cs) \<le> length cs"
  unfolding skipWs_def by (rule length_dropWhile_le)

lemma skipWs_Cons_shorter: "skipWs cs = c # cs' \<Longrightarrow> length cs' < length cs"
  using length_skipWs [of cs] by simp

lemma parseChars_shorter: "parseChars cs = Some (k, rest) \<Longrightarrow> length rest < length cs"
proof (induction cs arbitrary: k rest rule: parseChars.induct)
  case 1
  then show ?case by simp
next
  case (2 c cs)
  show ?case
  proof (cases "c = CHR ''\"''")
    case True
    with "2.prems" show ?thesis by simp
  next
    case notquote: False
    show ?thesis
    proof (cases "c = CHR 0x5C")
      case True
      show ?thesis
      proof (cases cs)
        case Nil
        with "2.prems" notquote True show ?thesis by simp
      next
        case (Cons e cs')
        show ?thesis
        proof (cases "e = CHR ''u''")
          case u: True
          with "2.prems" notquote True Cons obtain n k' where
            "hex4 (take 4 cs') = Some n" "parseChars (drop 4 cs') = Some (k', rest)"
            by (auto split: option.splits)
          with "2.IH"(1) [OF notquote True Cons u, of n k' rest] Cons show ?thesis
            by simp
        next
          case nou: False
          with "2.prems" notquote True Cons obtain n k' where
            "escapeChar e = Some n" "parseChars cs' = Some (k', rest)"
            by (auto split: option.splits)
          with "2.IH"(2) [OF notquote True Cons nou, of n k' rest] Cons show ?thesis
            by simp
        qed
      qed
    next
      case False
      with "2.prems" notquote obtain k' where
        "\<not> (of_char c :: nat) < 32" "parseChars cs = Some (k', rest)"
        by (auto split: if_splits)
      with "2.IH"(3) [OF notquote False, of k' rest] show ?thesis by simp
    qed
  qed
qed

lemma parseNumber_shorter:
  assumes "parseNumber s = Some (v, rest)"
  shows "length rest < length s"
proof -
  define s1 where "s1 = (if startsWith s ''-'' then tl s else s)"
  define ip where "ip = (if startsWith s1 ''0'' then ''0'' else takeWhile isDigit s1)"
  define r1 where "r1 = drop (length ip) s1"
  define fp where "fp = (if startsWith r1 ''.'' then takeWhile isDigit (tl r1) else [])"
  define r2 where "r2 = (if startsWith r1 ''.'' then dropWhile isDigit (tl r1) else r1)"
  define hasExp where "hasExp = (startsWith r2 ''e'' \<or> startsWith r2 ''E'')"
  define r3 where "r3 = (if hasExp then tl r2 else r2)"
  define r4 where
    "r4 = (if hasExp \<and> (startsWith r3 ''-'' \<or> startsWith r3 ''+'') then tl r3 else r3)"
  define ed where "ed = (if hasExp then takeWhile isDigit r4 else [])"
  define r5 where "r5 = (if hasExp then dropWhile isDigit r4 else r4)"
  define w where
    "w = (let m = real_of_int (decimalValue ip) + real_of_int (decimalValue fp) / 10 ^ length fp;
              ex = (if startsWith r3 ''-'' then - decimalValue ed else decimalValue ed);
              v = m * 10 powi ex
          in if startsWith s ''-'' then - v else v)"
  have eq: "parseNumber s =
        (if ip = [] then None
         else if startsWith r1 ''.'' \<and> fp = [] then None
         else if hasExp \<and> ed = [] then None else Some (w, r5))"
    by (simp only: parseNumber_def Let_def s1_def ip_def r1_def fp_def r2_def hasExp_def r3_def
          r4_def ed_def r5_def w_def)
  have ip: "ip \<noteq> []" using assms unfolding eq by (cases "ip = []") simp_all
  have rest: "rest = r5"
    using assms ip unfolding eq
    by (cases "startsWith r1 ''.'' \<and> fp = []"; cases "hasExp \<and> ed = []") simp_all
  have "length ip \<le> length s1"
    unfolding ip_def by (cases s1) (simp_all add: length_takeWhile_le)
  with ip have "length r1 < length s1" unfolding r1_def by (cases ip) simp_all
  moreover have "length s1 \<le> length s" unfolding s1_def by simp
  moreover have "length r2 \<le> length r1"
    unfolding r2_def using length_dropWhile_le [of isDigit "tl r1"] by auto
  moreover have "length r3 \<le> length r2" unfolding r3_def by simp
  moreover have "length r4 \<le> length r3" unfolding r4_def by simp
  moreover have "length r5 \<le> length r4"
    unfolding r5_def using length_dropWhile_le [of isDigit r4] by simp
  ultimately show ?thesis unfolding rest by linarith
qed

lemma parse_shorter:
  "(\<forall>v rest. parseValue cs = Some (v, rest) \<longrightarrow> length rest < length cs)"
  "(\<forall>vs rest. parseElements cs1 = Some (vs, rest) \<longrightarrow> length rest < length cs1)"
  "(\<forall>ms rest. parseMembers cs2 = Some (ms, rest) \<longrightarrow> length rest < length cs2)"
proof (induction cs and cs1 and cs2 rule: parseValue_parseElements_parseMembers.induct)
  case (1 cs)
  note unfold = parseValue.simps [of cs]
  show ?case
  proof (intro allI impI)
    fix v rest
    assume pv: "parseValue cs = Some (v, rest)"
    then obtain c cs' where sk: "skipWs cs = c # cs'"
      by (cases "skipWs cs") (simp_all add: unfold)
    have short: "length cs' < length cs" by (rule skipWs_Cons_shorter [OF sk])
    have le: "length (c # cs') \<le> length cs" using length_skipWs [of cs] sk by simp
    consider (arr) "c = CHR ''[''" | (obj) "c \<noteq> CHR ''[''" "c = CHR ''{''"
      | (str) "c \<noteq> CHR ''[''" "c \<noteq> CHR ''{''" "c = CHR ''\"''"
      | (other) "c \<noteq> CHR ''[''" "c \<noteq> CHR ''{''" "c \<noteq> CHR ''\"''"
      by blast
    then show "length rest < length cs"
    proof cases
      case arr
      show ?thesis
      proof (cases "startsWith (skipWs cs') '']''")
        case True
        with pv sk arr have "rest = tl (skipWs cs')" by (simp add: unfold)
        with length_skipWs [of cs'] short show ?thesis by simp
      next
        case False
        with pv sk arr obtain vs where "parseElements cs' = Some (vs, rest)"
          by (auto simp: unfold)
        with "1.IH"(1) [OF sk arr False] short show ?thesis by fastforce
      qed
    next
      case obj
      show ?thesis
      proof (cases "startsWith (skipWs cs') ''}''")
        case True
        with pv sk obj have "rest = tl (skipWs cs')" by (simp add: unfold)
        with length_skipWs [of cs'] short show ?thesis by simp
      next
        case False
        with pv sk obj obtain ms where "parseMembers cs' = Some (ms, rest)"
          by (auto simp: unfold)
        with "1.IH"(2) [OF sk obj False] short show ?thesis by fastforce
      qed
    next
      case str
      with pv sk obtain k where "parseChars cs' = Some (k, rest)"
        by (auto simp: unfold)
      with parseChars_shorter [of cs' k rest] short show ?thesis by simp
    next
      case other
      from pv sk other have
        "(if startsWith (c # cs') ''null'' then Some (JNull, drop 4 (c # cs'))
          else if startsWith (c # cs') ''true'' then Some (JBool True, drop 4 (c # cs'))
          else if startsWith (c # cs') ''false'' then Some (JBool False, drop 5 (c # cs'))
          else map_option (apfst JNum) (parseNumber (c # cs'))) = Some (v, rest)"
        by (simp add: unfold)
      then consider "rest = drop 4 (c # cs')" | "rest = drop 5 (c # cs')"
        | r where "parseNumber (c # cs') = Some (r, rest)"
        by (cases "startsWith (c # cs') ''null''"; cases "startsWith (c # cs') ''true''";
            cases "startsWith (c # cs') ''false''") (auto simp del: startsWith.simps)
      then show ?thesis
      proof cases
        case 1
        with le show ?thesis by simp
      next
        case 2
        with le show ?thesis by simp
      next
        case 3
        with parseNumber_shorter [OF 3] le show ?thesis by simp
      qed
    qed
  qed
next
  case (2 cs)
  note unfold = parseElements.simps [of cs]
  show ?case
  proof (intro allI impI)
    fix vs rest
    assume pe: "parseElements cs = Some (vs, rest)"
    then obtain v r where pv: "parseValue cs = Some (v, r)"
      by (cases "parseValue cs") (auto simp: unfold)
    from pe pv have lt: "length r < length cs"
      by (cases "length r < length cs") (simp_all add: unfold)
    from pe pv lt obtain c cs' where sk: "skipWs r = c # cs'"
      by (cases "skipWs r") (simp_all add: unfold)
    have short: "length cs' < length r" by (rule skipWs_Cons_shorter [OF sk])
    show "length rest < length cs"
    proof (cases "c = CHR '',''")
      case True
      with pe pv lt sk obtain vs' where "parseElements cs' = Some (vs', rest)"
        by (auto simp: unfold)
      moreover have "\<forall>vs rest. parseElements cs' = Some (vs, rest) \<longrightarrow> length rest < length cs'"
        using "2.IH"(2) [OF pv refl lt sk True] .
      ultimately show ?thesis using short lt by fastforce
    next
      case False
      with pe pv lt sk have "rest = cs'"
        by (cases "c = CHR '']''") (simp_all add: unfold)
      with short lt show ?thesis by simp
    qed
  qed
next
  case (3 cs)
  note unfold = parseMembers.simps [of cs]
  show ?case
  proof (intro allI impI)
    fix ms rest
    assume pm: "parseMembers cs = Some (ms, rest)"
    then obtain q cs1 where sk1: "skipWs cs = q # cs1"
      by (cases "skipWs cs") (simp_all add: unfold)
    with pm have q: "\<not> q \<noteq> CHR ''\"''"
      by (cases "q = CHR ''\"''") (simp_all add: unfold)
    from pm sk1 q obtain k cs2 where pc: "parseChars cs1 = Some (k, cs2)"
      by (cases "parseChars cs1") (auto simp: unfold)
    from pm sk1 q pc obtain colon cs3 where sk2: "skipWs cs2 = colon # cs3"
      by (cases "skipWs cs2") (simp_all add: unfold)
    from pm sk1 q pc sk2 have guard: "\<not> (colon \<noteq> CHR '':'' \<or> \<not> length cs3 < length cs)"
      by (cases "colon \<noteq> CHR '':'' \<or> \<not> length cs3 < length cs") (simp_all add: unfold)
    from pm sk1 q pc sk2 guard obtain v r where pv: "parseValue cs3 = Some (v, r)"
      by (cases "parseValue cs3") (auto simp: unfold)
    from pm sk1 q pc sk2 guard pv have lt: "length r < length cs3"
      by (cases "length r < length cs3") (simp_all add: unfold)
    from pm sk1 q pc sk2 guard pv lt obtain c cs' where sk3: "skipWs r = c # cs'"
      by (cases "skipWs r") (simp_all add: unfold)
    have short: "length cs' < length r" by (rule skipWs_Cons_shorter [OF sk3])
    show "length rest < length cs"
    proof (cases "c = CHR '',''")
      case True
      with pm sk1 q pc sk2 guard pv lt sk3 obtain ms' where "parseMembers cs' = Some (ms', rest)"
        by (auto simp: unfold)
      moreover have "\<forall>ms rest. parseMembers cs' = Some (ms, rest) \<longrightarrow> length rest < length cs'"
        using "3.IH"(2) [OF sk1 q pc refl sk2 guard pv refl lt sk3 True] .
      ultimately show ?thesis using short lt guard by fastforce
    next
      case False
      with pm sk1 q pc sk2 guard pv lt sk3 have "rest = cs'"
        by (cases "c = CHR ''}''") (simp_all add: unfold)
      with short lt guard show ?thesis by simp
    qed
  qed
qed

lemma parseElements_unguarded:
  "parseElements cs =
     (case parseValue cs of
        None \<Rightarrow> None
      | Some (v, rest) \<Rightarrow>
          (case skipWs rest of
             [] \<Rightarrow> None
           | c # cs' \<Rightarrow>
               if c = CHR '','' then map_option (apfst ((#) v)) (parseElements cs')
               else if c = CHR '']'' then Some ([v], cs')
               else None))"
proof (cases "parseValue cs")
  case None
  then show ?thesis by (simp add: parseElements.simps [of cs])
next
  case (Some p)
  obtain v rest where p: "p = (v, rest)" by (cases p)
  with Some parse_shorter(1) [of cs] have "length rest < length cs" by simp
  with Some p show ?thesis by (simp add: parseElements.simps [of cs])
qed

lemma parseMembers_unguarded:
  "parseMembers cs =
     (case skipWs cs of
        [] \<Rightarrow> None
      | q # cs1 \<Rightarrow>
          if q \<noteq> CHR ''\"'' then None
          else
            (case parseChars cs1 of
               None \<Rightarrow> None
             | Some (k, cs2) \<Rightarrow>
                 (case skipWs cs2 of
                    [] \<Rightarrow> None
                  | colon # cs3 \<Rightarrow>
                      if colon \<noteq> CHR '':'' then None
                      else
                        (case parseValue cs3 of
                           None \<Rightarrow> None
                         | Some (v, rest) \<Rightarrow>
                             (case skipWs rest of
                                [] \<Rightarrow> None
                              | c # cs' \<Rightarrow>
                                  if c = CHR '','' then
                                    map_option (apfst ((#) (k, v))) (parseMembers cs')
                                  else if c = CHR ''}'' then Some ([(k, v)], cs')
                                  else None)))))"
proof -
  have g1: "length cs3 < length cs"
    if "skipWs cs = q # cs1" "parseChars cs1 = Some (k, cs2)" "skipWs cs2 = colon # cs3"
    for q cs1 k cs2 colon cs3
    using skipWs_Cons_shorter [OF that(1)] parseChars_shorter [OF that(2)]
      skipWs_Cons_shorter [OF that(3)] by simp
  have g2: "length rest < length cs3" if "parseValue cs3 = Some (v, rest)" for cs3 v rest
    using parse_shorter(1) [of cs3] that by simp
  show ?thesis
    by (subst parseMembers.simps)
      (auto simp: g1 g2 split: list.splits option.splits simp del: startsWith.simps)
qed


section \<open>The Number value of an integer\<close>

text \<open>
  The rounded magnitude is a multiple of the unit \<open>2 ^ (bitLength n - 53)\<close> by at most
  \<open>2 ^ 53\<close>, and lies within half a unit of the integer. An integer of at most 53 binary
  digits, and \<open>2 ^ 53\<close> itself, is its own Number value; every Number value of an integer
  is an integer or the infinity of its sign.
\<close>

lemma bitLength_nonpos: "n \<le> 0 \<Longrightarrow> bitLength n = 0"
  by (simp add: bitLength.simps)

lemma bitLength_pos: "0 < n \<Longrightarrow> bitLength n = Suc (bitLength (n div 2))"
  by (simp add: bitLength.simps [of n])

lemma bitLength_le: "n < 2 ^ k \<Longrightarrow> bitLength n \<le> k"
proof (induction k arbitrary: n)
  case 0
  then show ?case by (simp add: bitLength_nonpos)
next
  case (Suc k)
  from Suc.prems have "n div 2 < 2 ^ k" by simp
  from Suc.IH [OF this] show ?case
    by (cases "n \<le> 0") (simp_all add: bitLength_nonpos bitLength_pos)
qed

lemma bitLength_power: "bitLength (2 ^ k) = Suc k"
proof (induction k)
  case 0
  show ?case by (simp add: bitLength_pos bitLength_nonpos)
next
  case (Suc k)
  have "bitLength (2 ^ Suc k) = Suc (bitLength (2 ^ Suc k div 2))"
    by (rule bitLength_pos) simp
  with Suc show ?case by simp
qed

lemma bitLength_upper: "n < 2 ^ bitLength n"
proof (induction n rule: bitLength.induct)
  case (1 n)
  show ?case
  proof (cases "n \<le> 0")
    case True
    then show ?thesis by (simp add: bitLength_nonpos)
  next
    case False
    with 1 have "n div 2 < 2 ^ bitLength (n div 2)" by simp
    then have "n < 2 * 2 ^ bitLength (n div 2)" by simp
    with False show ?thesis by (simp add: bitLength_pos)
  qed
qed

lemma roundToBinary64_near:
  assumes "0 \<le> n" and "roundToBinary64 n = Some m"
  shows "\<exists>q. m = q * 2 ^ (bitLength n - 53) \<and> 0 \<le> q \<and> q \<le> 2 ^ 53 \<and>
             2 * \<bar>m - n\<bar> \<le> 2 ^ (bitLength n - 53)"
proof -
  define e where "e = bitLength n - 53"
  define q where "q = n div 2 ^ e"
  define r where "r = n mod 2 ^ e"
  define q' where "q' = (if 2 ^ e < 2 * r \<or> (2 * r = 2 ^ e \<and> odd q) then q + 1 else q)"
  have "roundToBinary64 n = (if q' * 2 ^ e < 2 ^ 1024 then Some (q' * 2 ^ e) else None)"
    by (simp only: roundToBinary64_def Let_def e_def q_def r_def q'_def)
  with assms(2) have m: "m = q' * 2 ^ e"
    by (cases "q' * 2 ^ e < 2 ^ 1024") simp_all
  have n: "n = q * 2 ^ e + r" unfolding q_def r_def by (rule div_mult_mod_eq [symmetric])
  have r: "0 \<le> r" "r < 2 ^ e" by (simp_all add: r_def)
  have q0: "0 \<le> q" using assms(1) by (simp add: q_def pos_imp_zdiv_nonneg_iff)
  have pos: "(0::int) < 2 ^ e" by simp
  have "bitLength n \<le> e + 53" by (simp add: e_def)
  then have "(2::int) ^ bitLength n \<le> 2 ^ (e + 53)" by (intro power_increasing) simp_all
  with bitLength_upper [of n] have "n < 2 ^ (e + 53)" by linarith
  also have "(2::int) ^ (e + 53) = 2 ^ 53 * 2 ^ e" by (simp only: power_add mult.commute)
  finally have "n < 2 ^ 53 * 2 ^ e" .
  moreover from n r(1) have "q * 2 ^ e \<le> n" by linarith
  ultimately have "q * 2 ^ e < 2 ^ 53 * 2 ^ e" by (rule le_less_trans [rotated])
  then have q53: "q < 2 ^ 53" by (rule iffD1 [OF mult_less_cancel_right_pos [OF pos]])
  have q'le: "q' \<le> 2 ^ 53" and q'0: "0 \<le> q'" using q53 q0 by (simp_all add: q'_def)
  have "2 * \<bar>m - n\<bar> \<le> 2 ^ e"
  proof (cases "2 ^ e < 2 * r \<or> (2 * r = 2 ^ e \<and> odd q)")
    case True
    then have "q' = q + 1" by (simp add: q'_def)
    then have "m - n = 2 ^ e - r" by (simp add: m n algebra_simps)
    with True r show ?thesis by auto
  next
    case False
    then have "q' = q" by (simp add: q'_def)
    then have "m - n = - r" by (simp add: m n)
    with False r show ?thesis by auto
  qed
  with m q'le q'0 show ?thesis unfolding e_def by blast
qed

lemma roundToBinary64_exact:
  assumes "0 \<le> n" and "n \<le> 2 ^ 53"
  shows "roundToBinary64 n = Some n"
proof (cases "n = 2 ^ 53")
  case True
  have "(2::int) ^ 53 div 2 = 2 ^ 52" by simp
  moreover have "(2::int) ^ 53 mod 2 = 0" by simp
  moreover have "(2::int) ^ 52 * 2 = 2 ^ 53" by simp
  moreover have "(2::int) ^ 53 < 2 ^ 1024" by (rule power_strict_increasing) simp_all
  ultimately show ?thesis
    unfolding True roundToBinary64_def bitLength_power Let_def
    by (simp only: diff_Suc_eq_diff_pred Suc_diff_le power_one_right mult_zero_right
          even_power) simp
next
  case False
  with assms have less: "n < 2 ^ 53" by simp
  then have e: "bitLength n - 53 = 0" using bitLength_le [of n 53] by simp
  have "n < 2 ^ 1024"
    using less power_strict_increasing [of 53 1024 "2::int"] by simp
  then show ?thesis by (simp add: roundToBinary64_def e)
qed

lemma toNumber_exact: "\<bar>n\<bar> \<le> 2 ^ 53 \<Longrightarrow> toNumber n = JNum (real_of_int n)"
  using roundToBinary64_exact [of "\<bar>n\<bar>"] by (simp add: toNumber_def)

lemma toNumber_cases:
  "toNumber n = JInf (0 \<le> n) \<or> (\<exists>m. toNumber n = JNum (real_of_int m))"
  by (cases "roundToBinary64 \<bar>n\<bar>") (simp_all add: toNumber_def)

lemma map_filter_map_option:
  "List.map_filter (\<lambda>x. map_option g (f x)) xs = map g (List.map_filter f xs)"
  by (induction xs) (simp_all add: List.map_filter_simps split: option.split)


section \<open>Facts about the validator\<close>

text \<open>
  Every check appends to the accumulators, so a pass of a loop is \<open>addBoth\<close> of the
  diagnostics it adds.
\<close>

lemma addError_addBoth:
  "addError ent r col msg v sugg =
     addBoth [\<lparr>type = error, severity = high, entity = ent, row = r, column = col,
               message = msg, val = v, suggestion = sugg, autoFixAvailable = truthy sugg\<rparr>] []"
  by (rule ext) (simp add: addError_def addBoth_def split: prod.split)

lemma addWarning_addBoth:
  "addWarning ent r col msg v sugg =
     addBoth [] [\<lparr>type = warning, severity = medium, entity = ent, row = r, column = col,
                  message = msg, val = v, suggestion = sugg, autoFixAvailable = truthy sugg\<rparr>]"
  by (rule ext) (simp add: addWarning_def addBoth_def split: prod.split)

lemma whenTrue_addBoth:
  "whenTrue b (addBoth es ws) = addBoth (if b then es else []) (if b then ws else [])"
  by (rule ext) (simp add: whenTrue_def addBoth_def)

lemma whenSome_addBoth:
  "whenSome x (\<lambda>v. addBoth (es v) (ws v)) =
     addBoth (case x of None \<Rightarrow> [] | Some v \<Rightarrow> es v) (case x of None \<Rightarrow> [] | Some v \<Rightarrow> ws v)"
  by (rule ext) (simp add: whenSome_def addBoth_def split: option.split)

lemma addBoth_addBoth: "addBoth es' ws' (addBoth es ws st) = addBoth (es @ es') (ws @ ws') st"
  by (simp add: addBoth_def)

lemma if_addBoth:
  "(if b then addBoth es ws else addBoth es' ws') =
   addBoth (if b then es else es') (if b then ws else ws')"
  by simp

lemma fst_addBoth: "fst (addBoth es ws st) = fst st @ es"
  by (simp add: addBoth_def)

lemma snd_addBoth: "snd (addBoth es ws st) = snd st @ ws"
  by (simp add: addBoth_def)

lemma case_option_same: "(case x of None \<Rightarrow> a | Some v \<Rightarrow> a) = a"
  by (cases x) simp_all

lemmas step_simps = addError_addBoth addWarning_addBoth whenTrue_addBoth whenSome_addBoth
  addBoth_addBoth if_addBoth case_option_same

lemma clientStep_errors:
  "fst (fst (clientStep index client (st, ids))) =
   fst st @ fst (fst (clientStep index client (([], []), ids)))"
  by (simp add: clientStep_def Let_def step_simps fst_addBoth split del: if_split)

lemma clientStep_ids: "snd (clientStep index client (st, ids)) = remember (ClientID client) ids"
  by (simp add: clientStep_def Let_def)

lemma fold_clientStep:
  "fst (fst (fold (\<lambda>(index, client). clientStep index client) (enumerate n cs) (st, ids))) =
   fst st @ clientRun n cs ids"
proof (induction cs arbitrary: n st ids)
  case Nil
  show ?case by simp
next
  case (Cons c cs)
  obtain st' ids' where step: "clientStep n c (st, ids) = (st', ids')"
    by (cases "clientStep n c (st, ids)")
  have ids': "ids' = remember (ClientID c) ids"
    using clientStep_ids [of n c st ids] step by simp
  have st': "fst st' = fst st @ fst (fst (clientStep n c (([], []), ids)))"
    using clientStep_errors [of n c st ids] step by simp
  show ?case
    by (simp add: step Cons.IH st' ids')
qed

lemma validateClients_errors: "fst (validateClients cs st) = fst st @ clientRun 0 cs {}"
  by (simp add: validateClients_def fold_clientStep)

lemma crossClientStep_errors:
  "fst (crossClientStep taskIds ic st) = fst st @ fst (crossClientStep taskIds ic ([], []))"
  by (cases ic) (simp add: crossClientStep_def Let_def step_simps fst_addBoth split del: if_split)

lemma fold_crossClientStep:
  "fst (fold (crossClientStep taskIds) (enumerate n cs) st) = fst st @ crossRun taskIds n cs"
proof (induction cs arbitrary: n st)
  case Nil
  show ?case by simp
next
  case (Cons c cs)
  show ?case
    by (simp add: Cons.IH crossClientStep_errors [of taskIds "(n, c)" st])
qed

lemma fold_crossSkillStep: "fst (fold (crossSkillStep allSkills) xs st) = fst st"
proof (induction xs arbitrary: st)
  case Nil
  show ?case by simp
next
  case (Cons x xs)
  have "fst (crossSkillStep allSkills x st) = fst st"
    by (cases x) (simp add: crossSkillStep_def Let_def step_simps fst_addBoth split del: if_split)
  with Cons.IH show ?case by simp
qed

lemma fold_crossPhaseStep: "fst (fold (crossPhaseStep numStr maxPhase) xs st) = fst st"
proof (induction xs arbitrary: st)
  case Nil
  show ?case by simp
next
  case (Cons x xs)
  have "fst (crossPhaseStep numStr maxPhase x st) = fst st"
    by (cases x) (simp add: crossPhaseStep_def Let_def step_simps fst_addBoth split del: if_split)
  with Cons.IH show ?case by simp
qed

lemma validateCrossReferences_errors:
  "fst (validateCrossReferences numStr allData st) =
   fst st @ crossRun (set (map TaskID (all_tasks allData))) 0 (all_clients allData)"
  by (simp add: validateCrossReferences_def Let_def step_simps fst_addBoth
        fold_crossClientStep fold_crossSkillStep fold_crossPhaseStep split del: if_split)

lemma validate_client_errors:
  "errors (validate numStr (ClientData cs) allData) =
     clientRun 0 cs {} @
     (case allData of
        None \<Rightarrow> []
      | Some ad \<Rightarrow> crossRun (set (map TaskID (all_tasks ad))) 0 (all_clients ad))"
  by (simp add: validate_def Let_def validateClients_errors validateCrossReferences_errors
        split: option.split)

lemma filter_if: "filter P (if b then xs else ys) = (if b then filter P xs else filter P ys)"
  by simp

lemma filter_case_option:
  "filter P (case x of None \<Rightarrow> xs | Some v \<Rightarrow> f v) =
     (case x of None \<Rightarrow> filter P xs | Some v \<Rightarrow> filter P (f v))"
  by (cases x) simp_all

lemma clientStep_duplicates:
  "filter isDuplicateError (fst (fst (clientStep n c (([], []), ids)))) =
     (if seen (ClientID c) ids
      then [\<lparr>type = error, severity = high, entity = clients, row = n, column = ''ClientID'',
              message = ''Duplicate ClientID: '' @ interp (ClientID c), val = strVal (ClientID c),
              suggestion = Some ''Consider adding a suffix or using a unique identifier'',
              autoFixAvailable = True\<rparr>]
      else [])"
  by (simp add: clientStep_def Let_def step_simps fst_addBoth isDuplicateError_def truthy_def
        filter_if filter_case_option
      cong: if_cong option.case_cong split del: if_split)

lemma crossClientStep_duplicates:
  "filter isDuplicateError (fst (crossClientStep taskIds (n, c) ([], []))) = []"
  by (simp add: crossClientStep_def Let_def step_simps fst_addBoth isDuplicateError_def filter_if filter_case_option
      cong: if_cong option.case_cong split del: if_split)

lemma crossRun_duplicates: "filter isDuplicateError (crossRun taskIds n cs) = []"
  by (induction cs arbitrary: n) (simp_all add: crossClientStep_duplicates)

lemma seenEarlier_Suc:
  "seenEarlier (c # cs) ids (Suc l) = seenEarlier cs (remember (ClientID c) ids) l"
  by (auto simp: seenEarlier_def seen_def remember_def less_Suc_eq_0_disj
      split: option.splits)

lemma seenEarlier_0: "seenEarlier (c # cs) ids 0 = seen (ClientID c) ids"
  by (simp add: seenEarlier_def)

lemma clientRun_duplicates:
  "filter isDuplicateError (clientRun n cs ids) =
     map (\<lambda>l. duplicateError (n + l) (ClientID (cs ! l)))
       (filter (seenEarlier cs ids) [0..<length cs])"
proof (induction cs arbitrary: n ids)
  case Nil
  show ?case by simp
next
  case (Cons c cs)
  have upt: "[0..<length (c # cs)] = 0 # map Suc [0..<length cs]"
    by (simp add: upt_conv_Cons map_Suc_upt del: upt_Suc)
  show ?case
    unfolding upt
    by (simp add: clientStep_duplicates Cons.IH filter_map o_def seenEarlier_Suc seenEarlier_0
          duplicateError_def del: upt_Suc)
qed

lemma filter_upt_single:
  assumes "j < m" and "\<And>l. l < m \<Longrightarrow> P l = (l = j)"
  shows "filter P [0..<m] = [j]"
proof -
  have "filter P [0..<m] = filter (\<lambda>l. l = j) [0..<m]"
    using assms(2) by (intro filter_cong) auto
  also have "\<dots> = [j]"
    using assms(1)
  proof (induction m)
    case 0
    then show ?case by simp
  next
    case (Suc m)
    then show ?case by (cases "j = m") (auto simp: less_Suc_eq)
  qed
  finally show ?thesis .
qed

lemma clientStep_range_error:
  assumes "PriorityLevel c = Some p" and "p < 1 \<or> p > 5"
  shows "\<lparr>type = error, severity = high, entity = clients, row = n, column = ''PriorityLevel'',
           message = ''PriorityLevel must be between 1 and 5'', val = VNum p,
           suggestion = Some ''Use a value between 1 (lowest) and 5 (highest)'',
           autoFixAvailable = True\<rparr> \<in> set (fst (fst (clientStep n c (([], []), ids))))"
  using assms
  by (simp add: clientStep_def Let_def step_simps fst_addBoth truthy_def split del: if_split)

lemma clientRun_range_error:
  assumes "i < length cs" and "PriorityLevel (cs ! i) = Some p" and "p < 1 \<or> p > 5"
  shows "\<lparr>type = error, severity = high, entity = clients, row = n + i, column = ''PriorityLevel'',
           message = ''PriorityLevel must be between 1 and 5'', val = VNum p,
           suggestion = Some ''Use a value between 1 (lowest) and 5 (highest)'',
           autoFixAvailable = True\<rparr> \<in> set (clientRun n cs ids)"
  using assms
proof (induction cs arbitrary: n i ids)
  case Nil
  then show ?case by simp
next
  case (Cons c cs)
  show ?case
  proof (cases i)
    case 0
    with Cons.prems clientStep_range_error [of c p n ids] show ?thesis by simp
  next
    case (Suc i')
    with Cons.prems Cons.IH [of i' "Suc n" "remember (ClientID c) ids"] show ?thesis by simp
  qed
qed

lemma crossClientStep_rows:
  "e \<in> set (fst (crossClientStep taskIds (n, c) ([], []))) \<Longrightarrow> row e = n"
  by (auto simp: crossClientStep_def Let_def step_simps fst_addBoth split: option.splits if_splits)

lemma filter_row_crossRun:
  "filter (\<lambda>e. row e = i) (crossRun taskIds n cs) =
     (if n \<le> i \<and> i < n + length cs
      then fst (crossClientStep taskIds (i, cs ! (i - n)) ([], [])) else [])"
proof (induction cs arbitrary: n)
  case Nil
  show ?case by auto
next
  case (Cons c cs)
  have here: "filter (\<lambda>e. row e = i) (fst (crossClientStep taskIds (n, c) ([], []))) =
              (if i = n then fst (crossClientStep taskIds (n, c) ([], [])) else [])"
    using crossClientStep_rows [of _ taskIds n c]
    by (auto simp: filter_empty_conv filter_id_conv)
  show ?case
  proof (cases "i = n")
    case True
    with here Cons.IH [of "Suc n"] show ?thesis by simp
  next
    case False
    with here Cons.IH [of "Suc n"] show ?thesis by (auto simp: nth_Cons' Suc_diff_le)
  qed
qed


section \<open>Claims about the similarity scorer and the header mapper\<close>

text \<open>
  Claim C4. For every list of incoming headers and every entity kind, the mapping returned
  by \<open>mapHeaders\<close> never assigns the same incoming header to two canonical fields: the
  chosen headers of the result are pairwise distinct (and so are its fields).
\<close>

theorem mapHeaders_injective:
  "distinct (map snd (mapHeaders headers dataType)) \<and>
   distinct (map fst (mapHeaders headers dataType))"
  using mapFields_ok [of headers "HEADER_MAPPINGS dataType"]
  by (simp add: mapHeaders_def mapState_ok_def)

text \<open>
  Claim C5. A canonical field is present in the result of \<open>mapHeaders\<close> only if some incoming
  header that no earlier field has claimed scores strictly more than 0.6 against one of the
  field's alternatives (the header the field gets is such a header); a field all of whose
  unclaimed headers score at most 0.6 against all its alternatives is absent from the result.
\<close>

theorem mapHeaders_threshold:
  "(map_of (mapHeaders headers dataType) field = Some h \<longrightarrow>
      h \<in> set headers \<and> h \<notin> claimedBefore headers dataType field \<and>
      (\<exists>alts. map_of (HEADER_MAPPINGS dataType) field = Some alts \<and>
         (\<exists>alt\<in>set alts. calculateSimilarity h alt > 6 / 10))) \<and>
   (\<forall>alts. map_of (HEADER_MAPPINGS dataType) field = Some alts \<and>
      (\<forall>h\<in>set headers. h \<notin> claimedBefore headers dataType field \<longrightarrow>
         (\<forall>alt\<in>set alts. calculateSimilarity h alt \<le> 6 / 10)) \<longrightarrow>
      map_of (mapHeaders headers dataType) field = None)"
proof (intro conjI impI allI)
  assume "map_of (mapHeaders headers dataType) field = Some h"
  then obtain alts where alts: "map_of (HEADER_MAPPINGS dataType) field = Some alts"
    and choice: "fieldChoice headers (claimedBefore headers dataType field) alts = Some h"
    by (auto simp: mapHeaders_field split: option.splits)
  from fieldChoice_Some [OF choice] alts
  show "h \<in> set headers" "h \<notin> claimedBefore headers dataType field"
    "\<exists>alts. map_of (HEADER_MAPPINGS dataType) field = Some alts \<and>
       (\<exists>alt\<in>set alts. calculateSimilarity h alt > 6 / 10)"
    by auto
next
  fix alts
  assume a: "map_of (HEADER_MAPPINGS dataType) field = Some alts \<and>
      (\<forall>h\<in>set headers. h \<notin> claimedBefore headers dataType field \<longrightarrow>
         (\<forall>alt\<in>set alts. calculateSimilarity h alt \<le> 6 / 10))"
  show "map_of (mapHeaders headers dataType) field = None"
  proof (cases "fieldChoice headers (claimedBefore headers dataType field) alts")
    case None
    with a show ?thesis by (simp add: mapHeaders_field)
  next
    case (Some h)
    from fieldChoice_Some [OF Some] a have False by fastforce
    then show ?thesis ..
  qed
qed

theorem mapHeaders_threshold_witness:
  "map_of (mapHeaders [''id''] clients) ''ClientID'' = Some ''id'' \<and>
   ''id'' \<notin> claimedBefore [''id''] clients ''ClientID'' \<and>
   (\<exists>alt\<in>set [''client_id'', ''clientid'', ''id'', ''client'', ''client_identifier''].
       calculateSimilarity ''id'' alt > 6 / 10) \<and>
   calculateSimilarity ''zz'' ''client_id'' \<le> 6 / 10 \<and>
   map_of (mapHeaders [''zz''] clients) ''ClientID'' = None"
proof -
  let ?alts = "[''client_id'', ''clientid'', ''id'', ''client'', ''client_identifier'']"
  have tab: "map_of (HEADER_MAPPINGS clients) ''ClientID'' = Some ?alts"
    by (simp add: HEADER_MAPPINGS_def)
  have present: "map_of (mapHeaders [''id''] clients) ''ClientID'' = Some ''id''"
    by code_simp
  have low: "\<forall>h\<in>set [''zz'']. h \<notin> claimedBefore [''zz''] clients ''ClientID'' \<longrightarrow>
               (\<forall>alt\<in>set ?alts. calculateSimilarity h alt \<le> 6 / 10)"
    by code_simp
  have one: "calculateSimilarity ''zz'' ''client_id'' \<le> 6 / 10"
    by code_simp
  from mapHeaders_threshold [of "[''id'']" clients "''ClientID''" "''id''"] present tab
  have "''id'' \<notin> claimedBefore [''id''] clients ''ClientID'' \<and>
        (\<exists>alt\<in>set ?alts. calculateSimilarity ''id'' alt > 6 / 10)"
    by auto
  moreover from mapHeaders_threshold [of "[''zz'']" clients "''ClientID''"] tab low
  have "map_of (mapHeaders [''zz''] clients) ''ClientID'' = None"
    by blast
  ultimately show ?thesis using present one by blast
qed

text \<open>
  Claim C6, as the code has it. For all strings \<open>a\<close> and \<open>b\<close> the similarity lies in [0,1];
  it is 1 when the normalized strings are identical (also when both are empty); it is 0.8
  when they differ and one occurs inside the other; otherwise it is 1 minus the edit distance
  of the normalized strings divided by the larger of the lengths of the NORMALIZED strings.
\<close>

theorem calculateSimilarity_contract:
  "0 \<le> calculateSimilarity a b \<and> calculateSimilarity a b \<le> 1 \<and>
   (normalize_str a = normalize_str b \<longrightarrow> calculateSimilarity a b = 1) \<and>
   (normalize_str a \<noteq> normalize_str b \<and>
    ((\<exists>p q. normalize_str a = p @ normalize_str b @ q) \<or>
     (\<exists>p q. normalize_str b = p @ normalize_str a @ q)) \<longrightarrow>
      calculateSimilarity a b = 8 / 10) \<and>
   (normalize_str a \<noteq> normalize_str b \<and>
    \<not> (\<exists>p q. normalize_str a = p @ normalize_str b @ q) \<and>
    \<not> (\<exists>p q. normalize_str b = p @ normalize_str a @ q) \<longrightarrow>
      calculateSimilarity a b =
        1 - real (levenshtein (normalize_str a) (normalize_str b)) /
            real (max (length (normalize_str a)) (length (normalize_str b))))"
  using calculateSimilarity_range [of a b]
  by (simp add: calculateSimilarity_cases includes_str_iff)

theorem calculateSimilarity_contract_witness:
  "normalize_str ''Client ID'' = normalize_str ''client_id'' \<and>
   calculateSimilarity ''Client ID'' ''client_id'' = 1 \<and>
   normalize_str ''id'' \<noteq> normalize_str ''client_id'' \<and>
   normalize_str ''client_id'' = ''client'' @ normalize_str ''id'' @ [] \<and>
   calculateSimilarity ''id'' ''client_id'' = 8 / 10 \<and>
   normalize_str ''a-b'' \<noteq> normalize_str ''xy'' \<and>
   \<not> includes_str (normalize_str ''a-b'') (normalize_str ''xy'') \<and>
   \<not> includes_str (normalize_str ''xy'') (normalize_str ''a-b'') \<and>
   calculateSimilarity ''a-b'' ''xy'' =
     1 - real (levenshtein (normalize_str ''a-b'') (normalize_str ''xy'')) /
         real (max (length (normalize_str ''a-b'')) (length (normalize_str ''xy'')))"
proof -
  have e1: "normalize_str ''Client ID'' = normalize_str ''client_id''"
    by code_simp
  have n2: "normalize_str ''id'' \<noteq> normalize_str ''client_id''"
    by code_simp
  have s2: "normalize_str ''client_id'' = ''client'' @ normalize_str ''id'' @ []"
    by code_simp
  have n3: "normalize_str ''a-b'' \<noteq> normalize_str ''xy''"
    by code_simp
  have i3: "\<not> includes_str (normalize_str ''a-b'') (normalize_str ''xy'')"
    "\<not> includes_str (normalize_str ''xy'') (normalize_str ''a-b'')"
    by code_simp+
  from calculateSimilarity_contract [of "''Client ID''" "''client_id''"] e1
  have "calculateSimilarity ''Client ID'' ''client_id'' = 1"
    by blast
  moreover from s2 have "\<exists>p q. normalize_str ''client_id'' = p @ normalize_str ''id'' @ q"
    by blast
  with calculateSimilarity_contract [of "''id''" "''client_id''"] n2
  have "calculateSimilarity ''id'' ''client_id'' = 8 / 10"
    by blast
  moreover from calculateSimilarity_contract [of "''a-b''" "''xy''"] n3 i3
  have "calculateSimilarity ''a-b'' ''xy'' =
     1 - real (levenshtein (normalize_str ''a-b'') (normalize_str ''xy'')) /
         real (max (length (normalize_str ''a-b'')) (length (normalize_str ''xy'')))"
    unfolding includes_str_iff by blast
  ultimately show ?thesis using e1 n2 s2 n3 i3 by blast
qed

text \<open>
  Claim C6 as the specification words it divides by \<open>max(len(a), len(b))\<close>, the lengths of the
  strings passed in. For \<open>a-b\<close> and \<open>xy\<close> (normalized: \<open>ab\<close> and \<open>xy\<close>, neither inside the
  other, distance 2) the code returns \<open>1 - 2/2 = 0\<close>, not \<open>1 - 2/3\<close>.
\<close>

theorem calculateSimilarity_raw_length_counterexample:
  "normalize_str ''a-b'' \<noteq> normalize_str ''xy'' \<and>
   \<not> includes_str (normalize_str ''a-b'') (normalize_str ''xy'') \<and>
   \<not> includes_str (normalize_str ''xy'') (normalize_str ''a-b'') \<and>
   calculateSimilarity ''a-b'' ''xy'' = 0 \<and>
   calculateSimilarity ''a-b'' ''xy'' \<noteq>
     1 - real (levenshtein (normalize_str ''a-b'') (normalize_str ''xy'')) /
         real (max (length ''a-b'') (length ''xy''))"
  by code_simp

text \<open>
  Claim C10, as the code has it. If at least one incoming header that no earlier field has
  claimed exactly matches (after normalization) an alternative name of a canonical field,
  \<open>mapHeaders\<close> assigns that field the LAST such unclaimed header in input order: the
  exact-match branch overwrites the candidate recorded so far, and no fuzzy score displaces it.
\<close>

theorem mapHeaders_last_direct_match:
  assumes "map_of (HEADER_MAPPINGS dataType) field = Some alts"
    and "filter (\<lambda>h. h \<notin> claimedBefore headers dataType field \<and> normalize_str h \<in> set alts)
           headers \<noteq> []"
  shows "map_of (mapHeaders headers dataType) field =
         Some (last (filter (\<lambda>h. h \<notin> claimedBefore headers dataType field \<and>
                                  normalize_str h \<in> set alts) headers))"
  using assms
  by (simp add: mapHeaders_field fieldChoice_direct HEADER_MAPPINGS_nonempty_alts)

theorem mapHeaders_last_direct_match_witness:
  "map_of (HEADER_MAPPINGS clients) ''ClientID'' =
     Some [''client_id'', ''clientid'', ''id'', ''client'', ''client_identifier''] \<and>
   filter (\<lambda>h. h \<notin> claimedBefore [''ID'', ''x'', ''id''] clients ''ClientID'' \<and>
               normalize_str h \<in> set [''client_id'', ''clientid'', ''id'', ''client'',
                                        ''client_identifier''])
     [''ID'', ''x'', ''id''] = [''ID'', ''id''] \<and>
   map_of (mapHeaders [''ID'', ''x'', ''id''] clients) ''ClientID'' = Some ''id''"
proof -
  let ?alts = "[''client_id'', ''clientid'', ''id'', ''client'', ''client_identifier'']"
  let ?hs = "[''ID'', ''x'', ''id'']"
  have tab: "map_of (HEADER_MAPPINGS clients) ''ClientID'' = Some ?alts"
    by (simp add: HEADER_MAPPINGS_def)
  have cands: "filter (\<lambda>h. h \<notin> claimedBefore ?hs clients ''ClientID'' \<and>
                       normalize_str h \<in> set ?alts) ?hs = [''ID'', ''id'']"
    by code_simp
  from mapHeaders_last_direct_match [OF tab, of ?hs] cands tab show ?thesis
    by simp
qed

text \<open>
  Claim C10 as the specification words it speaks of all headers that exactly match, claimed
  or not. For the worker headers \<open>Capacity, capacity\<close> both match the alternative
  \<open>capacity\<close> of \<open>MaxLoadPerPhase\<close>; the last one is claimed by \<open>AvailableSlots\<close>, which comes
  earlier and has the same alternative, so \<open>MaxLoadPerPhase\<close> gets the first one.
\<close>

theorem mapHeaders_last_direct_match_counterexample:
  "normalize_str ''Capacity'' \<in> set (snd (HEADER_MAPPINGS workers ! 4)) \<and>
   normalize_str ''capacity'' \<in> set (snd (HEADER_MAPPINGS workers ! 4)) \<and>
   fst (HEADER_MAPPINGS workers ! 4) = ''MaxLoadPerPhase'' \<and>
   mapHeaders [''Capacity'', ''capacity''] workers =
     [(''AvailableSlots'', ''capacity''), (''MaxLoadPerPhase'', ''Capacity'')]"
  by code_simp

section \<open>Claims about the value coercer\<close>

text \<open>
  Claim C2, as the code has it, for a field whose name contains \<open>Slots\<close> and none of the
  patterns tested before it (\<open>AvailableSlots\<close> is the one such canonical field). For every
  non-empty raw string: when the trimmed text is bracket-delimited and is valid JSON, the
  parsed value is returned as it is; otherwise the text (without its outer brackets when it
  has them) is split at commas, each trimmed piece is read by \<open>parseInt\<close>, and the pieces
  that do not start with an integer are dropped. Each piece kept gives the Number value of
  the integer it starts with: that integer itself when its magnitude is at most \<open>2 ^ 53\<close>,
  and in every case an integer or the infinity of its sign.
\<close>

theorem convertValue_slots:
  assumes "s \<noteq> ''''" and "includes_str fieldName ''Slots''"
    and "\<not> includes_str fieldName ''Skills''" and "\<not> includes_str fieldName ''TaskIDs''"
    and "\<not> includes_str fieldName ''Phases''" and "\<not> includes_str fieldName ''JSON''"
    and "\<not> includes_str fieldName ''Attributes''" and "\<not> includes_str fieldName ''Level''"
    and "\<not> includes_str fieldName ''Duration''" and "\<not> includes_str fieldName ''Load''"
    and "\<not> includes_str fieldName ''Concurrent''"
  shows "(startsWith (trim s) ''['' \<and> endsWith (trim s) '']'' \<and> JSON_parse (trim s) = Some v \<longrightarrow>
            convertValue (Some s) fieldName = v) \<and>
         (startsWith (trim s) ''['' \<and> endsWith (trim s) '']'' \<and> JSON_parse (trim s) = None \<longrightarrow>
            convertValue (Some s) fieldName =
              JArr (map toNumber
                     (List.map_filter (\<lambda>p. mathInt (trim p))
                        (split_comma (slice_1_m1 (trim s)))))) \<and>
         (\<not> (startsWith (trim s) ''['' \<and> endsWith (trim s) '']'') \<longrightarrow>
            convertValue (Some s) fieldName =
              JArr (map toNumber
                     (List.map_filter (\<lambda>p. mathInt (trim p)) (split_comma (trim s))))) \<and>
         (\<forall>n. \<bar>n\<bar> \<le> 2 ^ 53 \<longrightarrow> toNumber n = JNum (real_of_int n)) \<and>
         (\<forall>n. toNumber n = JInf (0 \<le> n) \<or> (\<exists>m. toNumber n = JNum (real_of_int m)))"
  using assms
  by (simp add: convertValue_def Let_def parseInt_def map_filter_map_option toNumber_exact
        toNumber_cases)

theorem convertValue_slots_witness:
  "convertValue (Some ''1,2,3'') ''AvailableSlots'' = JArr [JNum 1, JNum 2, JNum 3] \<and>
   JSON_parse (trim ''[1, 2, x]'') = None \<and>
   convertValue (Some ''[1, 2, x]'') ''AvailableSlots'' = JArr [JNum 1, JNum 2] \<and>
   JSON_parse (trim ''[4, 5]'') = Some (JArr [JNum 4, JNum 5]) \<and>
   convertValue (Some ''[4, 5]'') ''AvailableSlots'' = JArr [JNum 4, JNum 5] \<and>
   convertValue (Some ''7, 9007199254740993'') ''AvailableSlots'' =
     JArr [JNum 7, JNum 9007199254740992]"
proof -
  have f: "includes_str ''AvailableSlots'' ''Slots''"
    "\<not> includes_str ''AvailableSlots'' ''Skills''" "\<not> includes_str ''AvailableSlots'' ''TaskIDs''"
    "\<not> includes_str ''AvailableSlots'' ''Phases''" "\<not> includes_str ''AvailableSlots'' ''JSON''"
    "\<not> includes_str ''AvailableSlots'' ''Attributes''" "\<not> includes_str ''AvailableSlots'' ''Level''"
    "\<not> includes_str ''AvailableSlots'' ''Duration''" "\<not> includes_str ''AvailableSlots'' ''Load''"
    "\<not> includes_str ''AvailableSlots'' ''Concurrent''"
    by simp_all
  have a1: "\<not> (startsWith (trim ''1,2,3'') ''['' \<and> endsWith (trim ''1,2,3'') '']'')"
    by code_simp
  have a2: "List.map_filter (\<lambda>p. mathInt (trim p)) (split_comma (trim ''1,2,3'')) = [1, 2, 3]"
    by code_simp
  have b1: "startsWith (trim ''[1, 2, x]'') ''['' \<and> endsWith (trim ''[1, 2, x]'') '']''"
    by code_simp
  have b2: "JSON_parse (trim ''[1, 2, x]'') = None"
    by code_simp
  have b3: "List.map_filter (\<lambda>p. mathInt (trim p))
              (split_comma (slice_1_m1 (trim ''[1, 2, x]''))) = [1, 2]"
    by code_simp
  have c1: "startsWith (trim ''[4, 5]'') ''['' \<and> endsWith (trim ''[4, 5]'') '']''"
    by code_simp
  have c2: "JSON_parse (trim ''[4, 5]'') = Some (JArr [JNum 4, JNum 5])"
    by code_simp
  have d1: "\<not> (startsWith (trim ''7, 9007199254740993'') ''['' \<and>
                endsWith (trim ''7, 9007199254740993'') '']'')"
    by code_simp
  have d2: "List.map_filter (\<lambda>p. mathInt (trim p)) (split_comma (trim ''7, 9007199254740993'')) =
              [7, 9007199254740993]"
    by code_simp
  have d3: "toNumber 9007199254740993 = JNum 9007199254740992"
    by code_simp
  have "convertValue (Some ''1,2,3'') ''AvailableSlots'' = JArr [JNum 1, JNum 2, JNum 3]"
    using convertValue_slots [of "''1,2,3''" "''AvailableSlots''", OF _ f] a1 a2 by simp
  moreover have "convertValue (Some ''[1, 2, x]'') ''AvailableSlots'' = JArr [JNum 1, JNum 2]"
    using convertValue_slots [of "''[1, 2, x]''" "''AvailableSlots''", OF _ f] b1 b2 b3 by simp
  moreover have "convertValue (Some ''[4, 5]'') ''AvailableSlots'' = JArr [JNum 4, JNum 5]"
    using convertValue_slots [of "''[4, 5]''" "''AvailableSlots''" "JArr [JNum 4, JNum 5]", OF _ f]
      c1 c2 by simp
  moreover have "convertValue (Some ''7, 9007199254740993'') ''AvailableSlots'' =
      JArr [JNum 7, JNum 9007199254740992]"
    using convertValue_slots [of "''7, 9007199254740993''" "''AvailableSlots''", OF _ f]
      d1 d2 d3 by simp
  ultimately show ?thesis using b2 c2 by simp
qed

text \<open>
  Claim C2 as the specification words it promises a sequence of integers for both
  \<open>AvailableSlots\<close> and \<open>PreferredPhases\<close> and every non-empty raw string. A bracketed
  text that is valid JSON comes back as parsed, whatever its elements; \<open>PreferredPhases\<close>
  is caught by the earlier test for \<open>Phases\<close> and split into strings; and a piece of 309
  digits is read as \<open>Infinity\<close>, which the test for \<open>NaN\<close> keeps.
\<close>

theorem convertValue_slots_counterexample:
  "convertValue (Some ''[1.5, true]'') ''AvailableSlots'' = JArr [JNum (3 / 2), JBool True] \<and>
   convertValue (Some ''1,2,3'') ''PreferredPhases'' = JArr [JStr ''1'', JStr ''2'', JStr ''3''] \<and>
   convertValue (Some (replicate 309 CHR ''9'')) ''AvailableSlots'' = JArr [JInf True]"
  by code_simp

text \<open>
  Claim C9, as the code has it, for a field whose name contains \<open>JSON\<close> or \<open>Attributes\<close> and
  none of the patterns tested before it (\<open>AttributesJSON\<close>). For every non-empty raw string
  the coercer parses the TRIMMED text as JSON, any JSON value and not only an object, and
  returns the parsed value; when the text is not valid JSON it returns the trimmed text.
  Nothing is raised: the result is a value in either case.
\<close>

theorem convertValue_attributes:
  assumes "s \<noteq> ''''"
    and "includes_str fieldName ''JSON'' \<or> includes_str fieldName ''Attributes''"
    and "\<not> includes_str fieldName ''Skills''" and "\<not> includes_str fieldName ''TaskIDs''"
    and "\<not> includes_str fieldName ''Phases''"
  shows "convertValue (Some s) fieldName =
           (case JSON_parse (trim s) of Some v \<Rightarrow> v | None \<Rightarrow> JStr (trim s))"
  using assms by (simp add: convertValue_def Let_def)

theorem convertValue_attributes_witness:
  "''{bad json'' \<noteq> '''' \<and> includes_str ''AttributesJSON'' ''JSON'' \<and>
   \<not> includes_str ''AttributesJSON'' ''Skills'' \<and> \<not> includes_str ''AttributesJSON'' ''TaskIDs'' \<and>
   \<not> includes_str ''AttributesJSON'' ''Phases'' \<and>
   JSON_parse (trim ''{bad json'') = None \<and> trim ''{bad json'' = ''{bad json'' \<and>
   convertValue (Some ''{bad json'') ''AttributesJSON'' = JStr ''{bad json''"
proof -
  have f: "includes_str ''AttributesJSON'' ''JSON'' \<or> includes_str ''AttributesJSON'' ''Attributes''"
    "\<not> includes_str ''AttributesJSON'' ''Skills''" "\<not> includes_str ''AttributesJSON'' ''TaskIDs''"
    "\<not> includes_str ''AttributesJSON'' ''Phases''"
    by simp_all
  have t: "trim ''{bad json'' = ''{bad json''"
    by code_simp
  have p: "JSON_parse ''{bad json'' = None"
    by code_simp
  have "convertValue (Some ''{bad json'') ''AttributesJSON'' = JStr ''{bad json''"
    using convertValue_attributes [of "''{bad json''" "''AttributesJSON''", OF _ f] t p by simp
  with f t p show ?thesis by simp
qed

text \<open>
  Claim C9 as the specification words it returns the original string verbatim when the
  parse fails, and parses objects only. With a leading blank the result is the trimmed text,
  not the original; and \<open>123\<close> is parsed, giving the number.
\<close>

theorem convertValue_attributes_counterexample:
  "JSON_parse (trim '' {bad json'') = None \<and>
   convertValue (Some '' {bad json'') ''AttributesJSON'' = JStr ''{bad json'' \<and>
   convertValue (Some '' {bad json'') ''AttributesJSON'' \<noteq> JStr '' {bad json'' \<and>
   convertValue (Some ''123'') ''AttributesJSON'' = JNum 123"
  by code_simp

section \<open>Claims about the validator\<close>

text \<open>
  Claim C1 says that the confidence is the rounded percentage of rows without errors. The
  code subtracts the NUMBER OF ERRORS from the number of rows. A single client row with
  neither identifier, name nor priority has three errors: the count of valid rows is -2 and
  the confidence -200, where one row out of one with errors gives 0. And of ten rows, three
  of which lack both identifier and name, seven are without errors, yet the confidence is
  40, not 70.
\<close>

theorem validate_confidence_counts_errors:
  "confidence (validate numStr (ClientData
      [\<lparr>ClientID = None, ClientName = None, PriorityLevel = None, RequestedTaskIDs = None,
        GroupTag = None, AttributesJSON = None\<rparr>]) None) = - 200 \<and>
   map row (errors (validate numStr (ClientData
      [\<lparr>ClientID = None, ClientName = None, PriorityLevel = None, RequestedTaskIDs = None,
        GroupTag = None, AttributesJSON = None\<rparr>]) None)) = [0, 0, 0] \<and>
   confidence (validate numStr (ClientData
      (map (\<lambda>k. \<lparr>ClientID = None, ClientName = None, PriorityLevel = Some 3,
                   RequestedTaskIDs = None, GroupTag = None, AttributesJSON = None\<rparr>) [0, 1, 2 :: nat] @
       map (\<lambda>i. \<lparr>ClientID = Some i, ClientName = Some ''Acme'', PriorityLevel = Some 3,
                   RequestedTaskIDs = None, GroupTag = None, AttributesJSON = None\<rparr>)
         [''a'', ''b'', ''c'', ''d'', ''e'', ''f'', ''g''])) None) = 40 \<and>
   map row (errors (validate numStr (ClientData
      (map (\<lambda>k. \<lparr>ClientID = None, ClientName = None, PriorityLevel = Some 3,
                   RequestedTaskIDs = None, GroupTag = None, AttributesJSON = None\<rparr>) [0, 1, 2 :: nat] @
       map (\<lambda>i. \<lparr>ClientID = Some i, ClientName = Some ''Acme'', PriorityLevel = Some 3,
                   RequestedTaskIDs = None, GroupTag = None, AttributesJSON = None\<rparr>)
         [''a'', ''b'', ''c'', ''d'', ''e'', ''f'', ''g''])) None)) = [0, 0, 1, 1, 2, 2]"
  by code_simp

text \<open>
  Claim C3. Validating a client collection in which row \<open>i\<close> has a \<open>PriorityLevel\<close> outside
  [1,5] yields an error on that row, in column \<open>PriorityLevel\<close>, carrying the value; the fix
  \<open>generateAutoFix\<close> proposes for that error is the value rounded, then clamped into [1,5].
  For 7 the fix is 5, for -3 it is 1.
\<close>

theorem priority_out_of_range:
  assumes "i < length cs" and "PriorityLevel (cs ! i) = Some p" and "p < 1 \<or> p > 5"
  shows "\<exists>e\<in>set (errors (validate numStr (ClientData cs) allData)).
           type e = error \<and> entity e = clients \<and> row e = i \<and> column e = ''PriorityLevel'' \<and>
           val e = VNum p \<and>
           generateAutoFix e = VNum (max 1 (min 5 (real_of_int (mathRound p))))"
proof -
  let ?e = "\<lparr>type = error, severity = high, entity = clients, row = i, column = ''PriorityLevel'',
           message = ''PriorityLevel must be between 1 and 5'', val = VNum p,
           suggestion = Some ''Use a value between 1 (lowest) and 5 (highest)'',
           autoFixAvailable = True\<rparr>"
  have "?e \<in> set (errors (validate numStr (ClientData cs) allData))"
    using clientRun_range_error [OF assms, of 0 "{}"] by (simp add: validate_client_errors)
  moreover have "generateAutoFix ?e = VNum (max 1 (min 5 (real_of_int (mathRound p))))"
    by (simp add: generateAutoFix_def)
  ultimately show ?thesis by (intro bexI [of _ ?e]) simp_all
qed

theorem priority_out_of_range_witness:
  "(\<exists>e\<in>set (errors (validate (\<lambda>x. ''n'') (ClientData
        [\<lparr>ClientID = Some ''C1'', ClientName = Some ''Acme'', PriorityLevel = Some 7,
          RequestedTaskIDs = None, GroupTag = None, AttributesJSON = None\<rparr>,
         \<lparr>ClientID = Some ''C2'', ClientName = Some ''Bolt'', PriorityLevel = Some (- 3),
          RequestedTaskIDs = None, GroupTag = None, AttributesJSON = None\<rparr>]) None)).
      row e = 0 \<and> column e = ''PriorityLevel'' \<and> val e = VNum 7 \<and> generateAutoFix e = VNum 5) \<and>
   (\<exists>e\<in>set (errors (validate (\<lambda>x. ''n'') (ClientData
        [\<lparr>ClientID = Some ''C1'', ClientName = Some ''Acme'', PriorityLevel = Some 7,
          RequestedTaskIDs = None, GroupTag = None, AttributesJSON = None\<rparr>,
         \<lparr>ClientID = Some ''C2'', ClientName = Some ''Bolt'', PriorityLevel = Some (- 3),
          RequestedTaskIDs = None, GroupTag = None, AttributesJSON = None\<rparr>]) None)).
      row e = 1 \<and> column e = ''PriorityLevel'' \<and> val e = VNum (- 3) \<and>
      generateAutoFix e = VNum 1)"
proof -
  let ?cs = "[\<lparr>ClientID = Some ''C1'', ClientName = Some ''Acme'', PriorityLevel = Some 7,
          RequestedTaskIDs = None, GroupTag = None, AttributesJSON = None\<rparr>,
         \<lparr>ClientID = Some ''C2'', ClientName = Some ''Bolt'', PriorityLevel = Some (- 3),
          RequestedTaskIDs = None, GroupTag = None, AttributesJSON = None\<rparr>]"
  have r7: "max 1 (min 5 (real_of_int (mathRound 7))) = 5"
    by (simp add: mathRound_def)
  have r3: "max 1 (min 5 (real_of_int (mathRound (- 3)))) = 1"
    by (simp add: mathRound_def)
  from priority_out_of_range [of 0 ?cs 7 "\<lambda>x. ''n''" None]
  have a: "\<exists>e\<in>set (errors (validate (\<lambda>x. ''n'') (ClientData ?cs) None)).
      row e = 0 \<and> column e = ''PriorityLevel'' \<and> val e = VNum 7 \<and> generateAutoFix e = VNum 5"
    unfolding r7 by simp blast
  from priority_out_of_range [of 1 ?cs "- 3" "\<lambda>x. ''n''" None]
  have b: "\<exists>e\<in>set (errors (validate (\<lambda>x. ''n'') (ClientData ?cs) None)).
      row e = 1 \<and> column e = ''PriorityLevel'' \<and> val e = VNum (- 3) \<and>
      generateAutoFix e = VNum 1"
    unfolding r3 by simp blast
  from a b show ?thesis by blast
qed

text \<open>
  Claim C7. During cross-entity validation a client row whose \<open>RequestedTaskIDs\<close> holds
  entries that are no task's identifier receives exactly one error, which lists all the
  unresolved entries of that row (in the message and as its value); the errors already
  accumulated are kept in front. A client asking for \<open>T9\<close> when no task \<open>T9\<close> exists gets
  exactly one error on its row, naming \<open>T9\<close>.
\<close>

theorem cross_reference_one_error_per_row:
  assumes "i < length (all_clients allData)"
    and "RequestedTaskIDs (all_clients allData ! i) = Some ids"
    and "filter (\<lambda>taskId. Some taskId \<notin> set (map TaskID (all_tasks allData))) ids \<noteq> []"
  shows "take (length (fst st)) (fst (validateCrossReferences numStr allData st)) = fst st \<and>
         filter (\<lambda>e. row e = i)
           (drop (length (fst st)) (fst (validateCrossReferences numStr allData st))) =
           [\<lparr>type = error, severity = high, entity = clients, row = i,
              column = ''RequestedTaskIDs'',
              message = ''Referenced task IDs not found: '' @
                join '', '' (filter (\<lambda>taskId. Some taskId \<notin> set (map TaskID (all_tasks allData))) ids),
              val = VStrs (filter (\<lambda>taskId. Some taskId \<notin> set (map TaskID (all_tasks allData))) ids),
              suggestion = None, autoFixAvailable = False\<rparr>]"
  using assms
  by (simp add: validateCrossReferences_errors filter_row_crossRun crossClientStep_def Let_def
        step_simps fst_addBoth truthy_def)

theorem cross_reference_one_error_per_row_witness:
  "filter (\<lambda>e. row e = 0)
     (fst (validateCrossReferences (\<lambda>x. ''n'')
        \<lparr>all_clients = [\<lparr>ClientID = Some ''C1'', ClientName = Some ''Acme'',
                           PriorityLevel = Some 3, RequestedTaskIDs = Some [''T9''],
                           GroupTag = None, AttributesJSON = None\<rparr>],
          all_workers = [],
          all_tasks = [\<lparr>TaskID = Some ''T1'', TaskName = Some ''Build'', Category = Some ''Dev'',
                         Duration = Some 2, RequiredSkills = None, PreferredPhases = None,
                         MaxConcurrent = None\<rparr>]\<rparr> ([], []))) =
     [\<lparr>type = error, severity = high, entity = clients, row = 0,
        column = ''RequestedTaskIDs'', message = ''Referenced task IDs not found: T9'',
        val = VStrs [''T9''], suggestion = None, autoFixAvailable = False\<rparr>]"
proof -
  let ?ad = "\<lparr>all_clients = [\<lparr>ClientID = Some ''C1'', ClientName = Some ''Acme'',
                           PriorityLevel = Some 3, RequestedTaskIDs = Some [''T9''],
                           GroupTag = None, AttributesJSON = None\<rparr>],
          all_workers = [],
          all_tasks = [\<lparr>TaskID = Some ''T1'', TaskName = Some ''Build'', Category = Some ''Dev'',
                         Duration = Some 2, RequiredSkills = None, PreferredPhases = None,
                         MaxConcurrent = None\<rparr>]\<rparr>"
  from cross_reference_one_error_per_row [of 0 ?ad "[''T9'']" "([], [])" "\<lambda>x. ''n''"]
  show ?thesis by simp
qed

text \<open>
  Claim C8. In a client collection of any length, let rows \<open>i < j\<close> be the two records, and
  the only two, with the non-empty \<open>ClientID\<close> \<open>x\<close>. Validating the collection yields
  exactly one duplicate-identifier error naming \<open>x\<close>: it is on row \<open>j\<close>, the second
  occurrence; the first occurrence, row \<open>i\<close>, is not flagged as a duplicate. When no other
  two records share a non-empty identifier, that error is the only duplicate-identifier
  error of the report. The validator returns a report and leaves the collection alone: the
  report counts every row.
\<close>

theorem duplicate_client_id:
  assumes "i < j" and "j < length cs"
    and "ClientID (cs ! i) = Some x" and "ClientID (cs ! j) = Some x" and "x \<noteq> ''''"
    and "\<forall>k<length cs. ClientID (cs ! k) = Some x \<longrightarrow> k = i \<or> k = j"
  shows "filter (\<lambda>e. isDuplicateError e \<and> val e = VStr x)
           (errors (validate numStr (ClientData cs) allData)) =
           [\<lparr>type = error, severity = high, entity = clients, row = j, column = ''ClientID'',
              message = ''Duplicate ClientID: '' @ x, val = VStr x,
              suggestion = Some ''Consider adding a suffix or using a unique identifier'',
              autoFixAvailable = True\<rparr>] \<and>
         filter (\<lambda>e. isDuplicateError e \<and> row e = i)
           (errors (validate numStr (ClientData cs) allData)) = [] \<and>
         ((\<forall>l<length cs. \<forall>k<l. ClientID (cs ! k) = ClientID (cs ! l) \<and> truthy (ClientID (cs ! l))
              \<longrightarrow> k = i \<and> l = j) \<longrightarrow>
          filter isDuplicateError (errors (validate numStr (ClientData cs) allData)) =
           [\<lparr>type = error, severity = high, entity = clients, row = j, column = ''ClientID'',
              message = ''Duplicate ClientID: '' @ x, val = VStr x,
              suggestion = Some ''Consider adding a suffix or using a unique identifier'',
              autoFixAvailable = True\<rparr>]) \<and>
         totalRows (summary (validate numStr (ClientData cs) allData)) = length cs"
proof -
  let ?e = "\<lparr>type = error, severity = high, entity = clients, row = j, column = ''ClientID'',
              message = ''Duplicate ClientID: '' @ x, val = VStr x,
              suggestion = Some ''Consider adding a suffix or using a unique identifier'',
              autoFixAvailable = True\<rparr>"
  have dups: "filter isDuplicateError (errors (validate numStr (ClientData cs) allData)) =
        map (\<lambda>l. duplicateError l (ClientID (cs ! l))) (filter (seenEarlier cs {}) [0..<length cs])"
    by (simp add: validate_client_errors clientRun_duplicates crossRun_duplicates
          split: option.split)
  have ej: "duplicateError j (ClientID (cs ! j)) = ?e"
    using assms by (simp add: duplicateError_def interp_def strVal_def)
  have "filter (\<lambda>e. isDuplicateError e \<and> val e = VStr x)
           (errors (validate numStr (ClientData cs) allData)) =
        filter (\<lambda>e. val e = VStr x)
          (filter isDuplicateError (errors (validate numStr (ClientData cs) allData)))"
    by (simp add: conj_commute)
  also have "\<dots> = map (\<lambda>l. duplicateError l (ClientID (cs ! l)))
       (filter (\<lambda>l. seenEarlier cs {} l \<and> ClientID (cs ! l) = Some x) [0..<length cs])"
    unfolding dups
    by (simp add: filter_map o_def duplicateError_def strVal_def conj_commute
          split: option.split cong: conj_cong)
       (rule arg_cong [where f = "map _"], rule filter_cong, auto split: option.splits)
  also have "filter (\<lambda>l. seenEarlier cs {} l \<and> ClientID (cs ! l) = Some x) [0..<length cs] = [j]"
  proof (rule filter_upt_single [OF assms(2)])
    fix l assume l: "l < length cs"
    show "(seenEarlier cs {} l \<and> ClientID (cs ! l) = Some x) = (l = j)"
    proof
      assume a: "seenEarlier cs {} l \<and> ClientID (cs ! l) = Some x"
      then obtain k where k: "k < l" "ClientID (cs ! k) = Some x"
        by (auto simp: seenEarlier_def seen_def)
      from a l assms(6) have "l = i \<or> l = j" by simp
      moreover from k l assms(6) have "k = i \<or> k = j" by simp
      ultimately show "l = j" using k(1) assms(1) by auto
    next
      assume "l = j"
      with assms show "seenEarlier cs {} l \<and> ClientID (cs ! l) = Some x"
        by (auto simp: seenEarlier_def seen_def)
    qed
  qed
  finally have first: "filter (\<lambda>e. isDuplicateError e \<and> val e = VStr x)
           (errors (validate numStr (ClientData cs) allData)) = [?e]"
    by (simp add: ej)
  have second: "filter isDuplicateError (errors (validate numStr (ClientData cs) allData)) = [?e]"
    if only: "\<forall>l<length cs. \<forall>k<l. ClientID (cs ! k) = ClientID (cs ! l) \<and> truthy (ClientID (cs ! l))
              \<longrightarrow> k = i \<and> l = j"
  proof -
    have "filter (seenEarlier cs {}) [0..<length cs] = [j]"
    proof (rule filter_upt_single [OF assms(2)])
      fix l assume l: "l < length cs"
      show "seenEarlier cs {} l = (l = j)"
      proof
        assume "seenEarlier cs {} l"
        then obtain y k where "ClientID (cs ! l) = Some y" "y \<noteq> ''''" "k < l" "ClientID (cs ! k) = Some y"
          by (auto simp: seenEarlier_def seen_def split: option.splits)
        with only l show "l = j" by (auto simp: truthy_def)
      next
        assume "l = j"
        with assms show "seenEarlier cs {} l" by (auto simp: seenEarlier_def seen_def)
      qed
    qed
    then show ?thesis by (simp add: dups ej)
  qed
  have notFirst: "filter (\<lambda>e. isDuplicateError e \<and> row e = i)
           (errors (validate numStr (ClientData cs) allData)) = []"
  proof -
    have "\<not> seenEarlier cs {} i"
    proof
      assume "seenEarlier cs {} i"
      then obtain k where k: "k < i" "ClientID (cs ! k) = Some x"
        using assms(3) by (auto simp: seenEarlier_def seen_def)
      from k(1) assms(1,2) have "k < length cs" by simp
      with assms(6) k(2) have "k = i \<or> k = j" by blast
      with k(1) assms(1) show False by auto
    qed
    moreover have "filter (\<lambda>e. isDuplicateError e \<and> row e = i)
           (errors (validate numStr (ClientData cs) allData)) =
        filter (\<lambda>e. row e = i)
          (filter isDuplicateError (errors (validate numStr (ClientData cs) allData)))"
      by (simp add: conj_commute)
    ultimately show ?thesis
      unfolding dups by (auto simp: filter_empty_conv duplicateError_def)
  qed
  have "totalRows (summary (validate numStr (ClientData cs) allData)) = length cs"
    by (simp add: validate_def Let_def dataLength_def)
  with first second notFirst show ?thesis by blast
qed

theorem duplicate_client_id_witness:
  "filter isDuplicateError (errors (validate (\<lambda>x. ''n'') (ClientData
      [\<lparr>ClientID = Some ''C1'', ClientName = Some ''Acme'', PriorityLevel = Some 3,
        RequestedTaskIDs = None, GroupTag = None, AttributesJSON = None\<rparr>,
       \<lparr>ClientID = Some ''C2'', ClientName = Some ''Bolt'', PriorityLevel = Some 2,
        RequestedTaskIDs = None, GroupTag = None, AttributesJSON = None\<rparr>,
       \<lparr>ClientID = Some ''C1'', ClientName = Some ''Core'', PriorityLevel = Some 1,
        RequestedTaskIDs = None, GroupTag = None, AttributesJSON = None\<rparr>]) None)) =
     [\<lparr>type = error, severity = high, entity = clients, row = 2, column = ''ClientID'',
        message = ''Duplicate ClientID: C1'', val = VStr ''C1'',
        suggestion = Some ''Consider adding a suffix or using a unique identifier'',
        autoFixAvailable = True\<rparr>] \<and>
   filter isDuplicateError (errors (validate (\<lambda>x. ''n'') (ClientData
      [\<lparr>ClientID = Some ''C1'', ClientName = Some ''Acme'', PriorityLevel = Some 3,
        RequestedTaskIDs = None, GroupTag = None, AttributesJSON = None\<rparr>,
       \<lparr>ClientID = Some ''C1'', ClientName = Some ''Bolt'', PriorityLevel = Some 2,
        RequestedTaskIDs = None, GroupTag = None, AttributesJSON = None\<rparr>]) None)) =
     [\<lparr>type = error, severity = high, entity = clients, row = 1, column = ''ClientID'',
        message = ''Duplicate ClientID: C1'', val = VStr ''C1'',
        suggestion = Some ''Consider adding a suffix or using a unique identifier'',
        autoFixAvailable = True\<rparr>]"
proof -
  let ?a = "\<lparr>ClientID = Some ''C1'', ClientName = Some ''Acme'', PriorityLevel = Some 3,
        RequestedTaskIDs = None, GroupTag = None, AttributesJSON = None\<rparr>"
  let ?b = "\<lparr>ClientID = Some ''C2'', ClientName = Some ''Bolt'', PriorityLevel = Some 2,
        RequestedTaskIDs = None, GroupTag = None, AttributesJSON = None\<rparr>"
  let ?b1 = "\<lparr>ClientID = Some ''C1'', ClientName = Some ''Bolt'', PriorityLevel = Some 2,
        RequestedTaskIDs = None, GroupTag = None, AttributesJSON = None\<rparr>"
  let ?c = "\<lparr>ClientID = Some ''C1'', ClientName = Some ''Core'', PriorityLevel = Some 1,
        RequestedTaskIDs = None, GroupTag = None, AttributesJSON = None\<rparr>"
  have three: "length [?a, ?b, ?c] = Suc (Suc (Suc 0))" and two: "length [?a, ?b1] = Suc (Suc 0)"
    by simp_all
  from duplicate_client_id [of 0 2 "[?a, ?b, ?c]" "''C1''" "\<lambda>x. ''n''" None]
  have "filter isDuplicateError (errors (validate (\<lambda>x. ''n'') (ClientData [?a, ?b, ?c]) None)) =
     [\<lparr>type = error, severity = high, entity = clients, row = 2, column = ''ClientID'',
        message = ''Duplicate ClientID: C1'', val = VStr ''C1'',
        suggestion = Some ''Consider adding a suffix or using a unique identifier'',
        autoFixAvailable = True\<rparr>]"
    unfolding three by (simp add: All_less_Suc truthy_def numeral_2_eq_2)
  moreover from duplicate_client_id [of 0 1 "[?a, ?b1]" "''C1''" "\<lambda>x. ''n''" None]
  have "filter isDuplicateError (errors (validate (\<lambda>x. ''n'') (ClientData [?a, ?b1]) None)) =
     [\<lparr>type = error, severity = high, entity = clients, row = 1, column = ''ClientID'',
        message = ''Duplicate ClientID: C1'', val = VStr ''C1'',
        suggestion = Some ''Consider adding a suffix or using a unique identifier'',
        autoFixAvailable = True\<rparr>]"
    unfolding two by (simp add: All_less_Suc truthy_def)
  ultimately show ?thesis by simp
qed

end
